theory Spec2Isabelle
  imports Complex_Main "HOL-Library.AList"
begin

section \<open>Python values, dictionaries and exceptions\<close>

text \<open>
  The generator (\<^verbatim>\<open>sales_generator.py\<close>) keeps every order as a Python dictionary with
  string keys. A dictionary is modelled as an association list in insertion order:
  assignment \<^verbatim>\<open>d[k] = v\<close> is \<open>AList.update\<close> (replace in place, else append),
  \<^verbatim>\<open>del d[k]\<close> is \<open>AList.delete\<close>, and a read \<^verbatim>\<open>d[k]\<close> of a missing key raises
  \<^verbatim>\<open>KeyError\<close>. Floats are idealised as reals.
\<close>

datatype pyval =
    VStr string
  | VInt int
  | VFloat real
  | VDict "(string \<times> pyval) list"

type_synonym pydict = "(string \<times> pyval) list"

datatype py_error =
    KeyError
  | ValueError
  | TypeError
  | IndexError
  | ZeroDivisionError
  | SystemExit string

definition bindE :: "'e + 'a \<Rightarrow> ('a \<Rightarrow> 'e + 'b) \<Rightarrow> 'e + 'b" where
  "bindE m f = (case m of Inl e \<Rightarrow> Inl e | Inr x \<Rightarrow> f x)"

text \<open>\<^verbatim>\<open>order[k]\<close> on an order dictionary.\<close>

definition subscript :: "pydict \<Rightarrow> string \<Rightarrow> py_error + pyval" where
  "subscript d k = (case map_of d k of None \<Rightarrow> Inl KeyError | Some v \<Rightarrow> Inr v)"

text \<open>Dictionaries are not hashable: using one as a key raises \<^verbatim>\<open>TypeError\<close>.\<close>

fun hashable :: "pyval \<Rightarrow> bool" where
  "hashable (VDict d) = False"
| "hashable v = True"

text \<open>\<^verbatim>\<open>TABLE[key]\<close> and \<^verbatim>\<open>key in TABLE\<close> on the module-level tables keyed by status.\<close>

definition table_get :: "(pyval \<times> 'v) list \<Rightarrow> pyval \<Rightarrow> py_error + 'v" where
  "table_get tab k =
     (if \<not> hashable k then Inl TypeError
      else case map_of tab k of None \<Rightarrow> Inl KeyError | Some v \<Rightarrow> Inr v)"

definition table_contains :: "(pyval \<times> 'v) list \<Rightarrow> pyval \<Rightarrow> py_error + bool" where
  "table_contains tab k =
     (if \<not> hashable k then Inl TypeError else Inr (map_of tab k \<noteq> None))"

text \<open>\<^verbatim>\<open>xs.index(x)\<close>: the first position of \<open>x\<close>, \<^verbatim>\<open>ValueError\<close> when absent.\<close>

fun list_index :: "'a list \<Rightarrow> 'a \<Rightarrow> py_error + nat" where
  "list_index [] x = Inl ValueError"
| "list_index (y # ys) x =
     (if y = x then Inr 0
      else case list_index ys x of Inl e \<Rightarrow> Inl e | Inr i \<Rightarrow> Inr (Suc i))"

text \<open>Arithmetic and comparison of a float with a stored value.\<close>

fun float_sub :: "real \<Rightarrow> pyval \<Rightarrow> py_error + real" where
  "float_sub x (VFloat y) = Inr (x - y)"
| "float_sub x (VInt i) = Inr (x - real_of_int i)"
| "float_sub x v = Inl TypeError"

fun float_ge :: "real \<Rightarrow> pyval \<Rightarrow> py_error + bool" where
  "float_ge x (VFloat y) = Inr (x \<ge> y)"
| "float_ge x (VInt i) = Inr (x \<ge> real_of_int i)"
| "float_ge x v = Inl TypeError"

text \<open>\<^verbatim>\<open>str(n)\<close> for the integers formatted into identifiers.\<close>

definition digit_char :: "nat \<Rightarrow> char" where
  "digit_char d = ''0123456789'' ! d"

fun str_nat :: "nat \<Rightarrow> string" where
  "str_nat n = (if n < 10 then [digit_char n] else str_nat (n div 10) @ [digit_char (n mod 10)])"

declare str_nat.simps [simp del]

definition str_int :: "int \<Rightarrow> string" where
  "str_int i = (if i < 0 then CHR ''-'' # str_nat (nat (- i)) else str_nat (nat i))"

text \<open>
  \<^verbatim>\<open>round(x, 2)\<close>: to two decimals, ties to the even neighbour.
\<close>

definition round_half_even :: "real \<Rightarrow> int" where
  "round_half_even y =
     (let f = \<lfloor>y\<rfloor>; d = y - of_int f
      in if d < 1 / 2 then f else if d > 1 / 2 then f + 1 else if even f then f else f + 1)"

definition round2 :: "real \<Rightarrow> real" where
  "round2 x = of_int (round_half_even (x * 100)) / 100"

section \<open>The environment: randomness, Faker, clocks, the broker\<close>

text \<open>
  Everything the program reads from outside is an oracle consumed in order: the raw draws
  of the \<^verbatim>\<open>random\<close> module, the strings Faker returns, the strings
  \<^verbatim>\<open>datetime.utcnow().isoformat()\<close> returns, whether \<^verbatim>\<open>create_kafka_producer\<close> obtains a
  producer, and whether each Kafka send is acknowledged.
\<close>

record world =
  kafka_connect :: bool
  rand_src :: "nat \<Rightarrow> nat"
  fake_src :: "nat \<Rightarrow> string"
  utc_src :: "nat \<Rightarrow> string"
  kafka_src :: "nat \<Rightarrow> bool"

definition next_raw :: "world \<Rightarrow> nat \<times> world" where
  "next_raw w = (rand_src w 0, w\<lparr>rand_src := (\<lambda>n. rand_src w (Suc n))\<rparr>)"

definition next_fake :: "world \<Rightarrow> string \<times> world" where
  "next_fake w = (fake_src w 0, w\<lparr>fake_src := (\<lambda>n. fake_src w (Suc n))\<rparr>)"

definition utcnow_isoformat :: "world \<Rightarrow> string \<times> world" where
  "utcnow_isoformat w = (utc_src w 0, w\<lparr>utc_src := (\<lambda>n. utc_src w (Suc n))\<rparr>)"

definition next_ack :: "world \<Rightarrow> bool \<times> world" where
  "next_ack w = (kafka_src w 0, w\<lparr>kafka_src := (\<lambda>n. kafka_src w (Suc n))\<rparr>)"

text \<open>\<^verbatim>\<open>random.random()\<close>: a 53-bit fraction in \<open>[0, 1)\<close>.\<close>

definition random_random :: "world \<Rightarrow> real \<times> world" where
  "random_random w = (case next_raw w of (n, w') \<Rightarrow> (real (n mod 2 ^ 53) / 2 ^ 53, w'))"

text \<open>\<^verbatim>\<open>random.uniform(a, b)\<close> is \<^verbatim>\<open>a + (b - a) * random()\<close>, for any \<open>a\<close> and \<open>b\<close>.\<close>

definition random_uniform :: "real \<Rightarrow> real \<Rightarrow> world \<Rightarrow> real \<times> world" where
  "random_uniform a b w = (case random_random w of (u, w') \<Rightarrow> (a + (b - a) * u, w'))"

text \<open>\<^verbatim>\<open>random.randint(a, b)\<close>: an integer of \<open>[a, b]\<close>; an empty range raises.\<close>

definition random_randint :: "int \<Rightarrow> int \<Rightarrow> world \<Rightarrow> py_error + int \<times> world" where
  "random_randint a b w =
     (if b < a then Inl ValueError
      else case next_raw w of (n, w') \<Rightarrow> Inr (a + int (n mod nat (b - a + 1)), w'))"

text \<open>\<^verbatim>\<open>random.choice(xs)\<close>: an element of \<open>xs\<close>; an empty list raises.\<close>

definition random_choice :: "'a list \<Rightarrow> world \<Rightarrow> py_error + 'a \<times> world" where
  "random_choice xs w =
     (if xs = [] then Inl IndexError
      else case next_raw w of (n, w') \<Rightarrow> Inr (xs ! (n mod length xs), w'))"

section \<open>Module constants\<close>

record product =
  prod_id :: string
  prod_name :: string
  price_range :: "real \<times> real"

definition PRODUCTS :: "product list" where
  "PRODUCTS =
    [\<lparr>prod_id = ''PROD-001'', prod_name = ''Wireless Bluetooth Headphones'', price_range = (2999 / 100, 19999 / 100)\<rparr>,
     \<lparr>prod_id = ''PROD-002'', prod_name = ''Smart Watch'', price_range = (9999 / 100, 49999 / 100)\<rparr>,
     \<lparr>prod_id = ''PROD-003'', prod_name = ''Laptop Stand'', price_range = (1999 / 100, 8999 / 100)\<rparr>,
     \<lparr>prod_id = ''PROD-004'', prod_name = ''USB-C Cable'', price_range = (999 / 100, 2999 / 100)\<rparr>,
     \<lparr>prod_id = ''PROD-005'', prod_name = ''Mechanical Keyboard'', price_range = (5999 / 100, 29999 / 100)\<rparr>,
     \<lparr>prod_id = ''PROD-006'', prod_name = ''Wireless Mouse'', price_range = (1999 / 100, 12999 / 100)\<rparr>,
     \<lparr>prod_id = ''PROD-007'', prod_name = ''Phone Case'', price_range = (1499 / 100, 4999 / 100)\<rparr>,
     \<lparr>prod_id = ''PROD-008'', prod_name = ''Portable Charger'', price_range = (2499 / 100, 7999 / 100)\<rparr>,
     \<lparr>prod_id = ''PROD-009'', prod_name = ''LED Desk Lamp'', price_range = (2999 / 100, 8999 / 100)\<rparr>,
     \<lparr>prod_id = ''PROD-010'', prod_name = ''Webcam HD'', price_range = (3999 / 100, 19999 / 100)\<rparr>,
     \<lparr>prod_id = ''PROD-011'', prod_name = ''External Hard Drive'', price_range = (4999 / 100, 19999 / 100)\<rparr>,
     \<lparr>prod_id = ''PROD-012'', prod_name = ''Monitor 27 inch'', price_range = (19999 / 100, 69999 / 100)\<rparr>,
     \<lparr>prod_id = ''PROD-013'', prod_name = ''Gaming Chair'', price_range = (14999 / 100, 49999 / 100)\<rparr>,
     \<lparr>prod_id = ''PROD-014'', prod_name = ''Desk Organizer'', price_range = (1299 / 100, 3999 / 100)\<rparr>,
     \<lparr>prod_id = ''PROD-015'', prod_name = ''Bluetooth Speaker'', price_range = (2999 / 100, 24999 / 100)\<rparr>]"

definition PAYMENT_METHODS :: "string list" where
  "PAYMENT_METHODS =
     [''credit_card'', ''debit_card'', ''paypal'', ''apple_pay'', ''google_pay'', ''bank_transfer'']"

definition ORDER_STATUS_FLOW :: "pyval list" where
  "ORDER_STATUS_FLOW = [VStr ''pending'', VStr ''confirmed'', VStr ''processing'', VStr ''shipped'']"

definition STATUS_TRANSITION_TIMES :: "(pyval \<times> int \<times> int) list" where
  "STATUS_TRANSITION_TIMES =
     [(VStr ''pending'', 10, 30), (VStr ''confirmed'', 15, 45), (VStr ''processing'', 20, 60)]"

definition CANCELLATION_PROBABILITY :: real where
  "CANCELLATION_PROBABILITY = 8 / 100"

definition CANCELLATION_REASONS :: "(pyval \<times> string list) list" where
  "CANCELLATION_REASONS =
     [(VStr ''pending'',
         [''payment_failed'', ''payment_declined'', ''customer_cancelled'', ''fraud_suspected'']),
      (VStr ''confirmed'',
         [''inventory_unavailable'', ''customer_cancelled'', ''payment_verification_failed'',
          ''address_invalid'']),
      (VStr ''processing'',
         [''customer_cancelled'', ''inventory_damaged'', ''shipping_address_unreachable'',
          ''customer_requested_cancellation''])]"

section \<open>The entity factory\<close>

definition generate_order_id :: "world \<Rightarrow> py_error + string \<times> world" where
  "generate_order_id w =
     bindE (random_randint 10000000 99999999 w) (\<lambda>(n, w'). Inr (''ORD-'' @ str_int n, w'))"

definition generate_customer_id :: "world \<Rightarrow> py_error + string \<times> world" where
  "generate_customer_id w =
     bindE (random_randint 100000 999999 w) (\<lambda>(n, w'). Inr (''CUST-'' @ str_int n, w'))"

definition generate_address :: "world \<Rightarrow> pydict \<times> world" where
  "generate_address w =
     (case next_fake w of (street, w1) \<Rightarrow>
      case next_fake w1 of (city, w2) \<Rightarrow>
      case next_fake w2 of (state, w3) \<Rightarrow>
      case next_fake w3 of (zip_code, w4) \<Rightarrow>
      case next_fake w4 of (country, w5) \<Rightarrow>
        ([(''street'', VStr street), (''city'', VStr city), (''state'', VStr state),
          (''zip_code'', VStr zip_code), (''country'', VStr country)], w5))"

definition generate_sale :: "world \<Rightarrow> py_error + pydict \<times> world" where
  "generate_sale w =
     bindE (random_choice PRODUCTS w) (\<lambda>(product, w1).
     bindE (random_randint 1 5 w1) (\<lambda>(quantity, w2).
       case random_uniform (fst (price_range product)) (snd (price_range product)) w2 of (x, w3) \<Rightarrow>
       let unit_price = round2 x;
           total = round2 (real_of_int quantity * unit_price)
       in
     bindE (generate_order_id w3) (\<lambda>(order_id, w4).
       case utcnow_isoformat w4 of (now, w5) \<Rightarrow>
     bindE (generate_customer_id w5) (\<lambda>(customer_id, w6).
       case next_fake w6 of (email, w7) \<Rightarrow>
     bindE (random_choice PAYMENT_METHODS w7) (\<lambda>(payment_method, w8).
       case generate_address w8 of (address, w9) \<Rightarrow>
         Inr ([(''order_id'', VStr order_id),
               (''timestamp'', VStr (now @ ''Z'')),
               (''product_id'', VStr (prod_id product)),
               (''product_name'', VStr (prod_name product)),
               (''quantity'', VInt quantity),
               (''price'', VFloat unit_price),
               (''total'', VFloat total),
               (''customer_id'', VStr customer_id),
               (''customer_email'', VStr email),
               (''payment_method'', VStr payment_method),
               (''shipping_address'', VDict address),
               (''status'', VStr ''pending'')], w9))))))"

section \<open>The lifecycle policy\<close>

definition get_next_status :: "pyval \<Rightarrow> py_error + pyval" where
  "get_next_status current_status =
     bindE (list_index ORDER_STATUS_FLOW current_status) (\<lambda>current_index.
       if int current_index < int (length ORDER_STATUS_FLOW) - 1
       then Inr (ORDER_STATUS_FLOW ! (current_index + 1))
       else Inr current_status)"

definition should_cancel_order :: "pyval \<Rightarrow> world \<Rightarrow> bool \<times> world" where
  "should_cancel_order status w =
     (if status \<in> set [VStr ''shipped'', VStr ''cancelled''] then (False, w)
      else case random_random w of (u, w') \<Rightarrow> (u < CANCELLATION_PROBABILITY, w'))"

definition cancel_order :: "pydict \<Rightarrow> real \<Rightarrow> world \<Rightarrow> py_error + pydict \<times> world" where
  "cancel_order order current_time w =
     bindE (subscript order ''status'') (\<lambda>status.
     bindE (table_contains CANCELLATION_REASONS status) (\<lambda>known.
     bindE (if known
            then bindE (table_get CANCELLATION_REASONS status) (\<lambda>reasons. random_choice reasons w)
            else Inr (''order_cancelled'', w)) (\<lambda>(reason, w1).
       case utcnow_isoformat w1 of (now, w2) \<Rightarrow>
         Inr (AList.update ''last_status_change'' (VFloat current_time)
               (AList.update ''timestamp'' (VStr (now @ ''Z''))
                 (AList.update ''cancellation_reason'' (VStr reason)
                   (AList.update ''status'' (VStr ''cancelled'') order))), w2))))"

definition should_advance_order :: "pydict \<Rightarrow> real \<Rightarrow> py_error + bool" where
  "should_advance_order order current_time =
     bindE (subscript order ''status'') (\<lambda>status.
       if status \<in> set [VStr ''shipped'', VStr ''cancelled''] then Inr False
       else
     bindE (subscript order ''last_status_change'') (\<lambda>last_change.
     bindE (float_sub current_time last_change) (\<lambda>time_in_status.
     bindE (table_get STATUS_TRANSITION_TIMES status) (\<lambda>(min_time, max_time).
     bindE (subscript order ''transition_time'') (\<lambda>transition_time.
       float_ge time_in_status transition_time)))))"

definition advance_order_status :: "pydict \<Rightarrow> real \<Rightarrow> world \<Rightarrow> py_error + pydict \<times> world" where
  "advance_order_status order current_time w =
     bindE (subscript order ''status'') (\<lambda>old_status.
       case should_cancel_order old_status w of (cancel, w1) \<Rightarrow>
       if cancel then cancel_order order current_time w1
       else
     bindE (get_next_status old_status) (\<lambda>new_status.
       case utcnow_isoformat w1 of (now, w2) \<Rightarrow>
       let order1 = AList.update ''last_status_change'' (VFloat current_time)
                      (AList.update ''timestamp'' (VStr (now @ ''Z''))
                        (AList.update ''status'' new_status order))
       in if new_status \<noteq> VStr ''shipped''
          then bindE (table_get STATUS_TRANSITION_TIMES new_status) (\<lambda>(min_time, max_time).
                 case random_uniform (real_of_int min_time) (real_of_int max_time) w2 of (x, w3) \<Rightarrow>
                   Inr (AList.update ''transition_time'' (VFloat x) order1, w3))
          else Inr (order1, w2)))"


section \<open>The event loop\<close>

text \<open>
  The arguments of \<^verbatim>\<open>run_generator\<close>. An optional string argument is \<open>None\<close> or
  \<open>Some\<close>; Python's truth test also rejects the empty string.
\<close>

record params =
  duration_minutes :: int
  min_delay :: int
  max_delay :: int
  kafka_bootstrap_servers :: "string option"
  kafka_topic :: "string option"
  output_console :: bool

fun truthy :: "string option \<Rightarrow> bool" where
  "truthy None = False"
| "truthy (Some s) = (s \<noteq> [])"

text \<open>
  The registry \<^verbatim>\<open>active_orders\<close> holds references to order dictionaries, which
  \<^verbatim>\<open>advance_order_status\<close> mutates in place. The store \<open>heap\<close> lists every order object
  in creation order (its index is the object's address, and an object that is no longer
  referenced stays in the list); the registry maps an order identifier to an address.
  Each sink records what it received together with the address of the order object the
  payload was built from.
\<close>

record kafka_msg =
  msg_obj :: nat
  msg_topic :: "string option"
  msg_key :: pyval
  msg_value :: pydict
  msg_acked :: bool

record gen_state =
  env :: world
  start_time :: real
  heap :: "pydict list"
  active_orders :: "(pyval \<times> nat) list"
  new_orders_count :: int
  status_updates_count :: int
  shipped_orders_count :: int
  cancelled_orders_count :: int
  next_order_time :: real
  kafka_out :: "kafka_msg list"
  console_out :: "(nat \<times> pydict) list"
  warnings :: "(string \<times> pyval) list"

text \<open>The dictionary comprehension that prepares an event's payload.\<close>

definition output_fields :: "pydict \<Rightarrow> pydict" where
  "output_fields order =
     filter (\<lambda>(k, v). k \<notin> set [''last_status_change'', ''transition_time'']) order"

text \<open>
  \<^verbatim>\<open>send_to_kafka\<close>: the producer is handed the message; the result says whether the
  acknowledgement arrived (any exception is caught there and reported as \<open>False\<close>).
\<close>

definition send_to_kafka ::
  "string option \<Rightarrow> nat \<Rightarrow> pyval \<Rightarrow> pydict \<Rightarrow> gen_state \<Rightarrow> bool \<times> gen_state" where
  "send_to_kafka topic a order_id data s =
     (case next_ack (env s) of (ok, w') \<Rightarrow>
        (ok, s\<lparr>env := w',
               kafka_out := kafka_out s @
                 [\<lparr>msg_obj = a, msg_topic = topic, msg_key = order_id, msg_value = data,
                   msg_acked = ok\<rparr>]\<rparr>))"

text \<open>
  The block that follows the payload's preparation, in both places of the loop: send to
  Kafka when a producer exists (warning when the send fails), print when the console is
  enabled. \<open>label\<close> is the text of the warning.
\<close>

definition dispatch ::
  "params \<Rightarrow> bool \<Rightarrow> string \<Rightarrow> nat \<Rightarrow> pydict \<Rightarrow> pydict \<Rightarrow> gen_state \<Rightarrow> py_error + gen_state" where
  "dispatch p kafka_producer label a order payload s =
     bindE (if kafka_producer
            then bindE (subscript order ''order_id'') (\<lambda>order_id.
                   case send_to_kafka (kafka_topic p) a order_id payload s of (kafka_success, s1) \<Rightarrow>
                     if \<not> kafka_success
                     then bindE (subscript order ''order_id'') (\<lambda>shown.
                            Inr (s1\<lparr>warnings := warnings s1 @ [(label, shown)]\<rparr>))
                     else Inr s1)
            else Inr s) (\<lambda>s2.
       Inr (if output_console p then s2\<lparr>console_out := console_out s2 @ [(a, payload)]\<rparr> else s2))"

text \<open>Step 2 of a tick: admit a new order when its arrival time has come.\<close>

definition admit_order :: "params \<Rightarrow> bool \<Rightarrow> real \<Rightarrow> gen_state \<Rightarrow> py_error + gen_state" where
  "admit_order p kafka_producer current_time s =
     (if current_time \<ge> next_order_time s then
        bindE (generate_sale (env s)) (\<lambda>(sale0, w1).
          let sale1 = AList.update ''last_status_change'' (VFloat current_time) sale0 in
        bindE (table_get STATUS_TRANSITION_TIMES (VStr ''pending'')) (\<lambda>(min_time, max_time).
          case random_uniform (real_of_int min_time) (real_of_int max_time) w1 of (x, w2) \<Rightarrow>
          let sale = AList.update ''transition_time'' (VFloat x) sale1 in
        bindE (subscript sale ''order_id'') (\<lambda>order_id.
          if \<not> hashable order_id then Inl TypeError
          else
          let a = length (heap s);
              s1 = s\<lparr>env := w2, heap := heap s @ [sale],
                     active_orders := AList.update order_id a (active_orders s)\<rparr>;
              output_sale = output_fields sale
          in
        bindE (dispatch p kafka_producer ''WARNING: Failed to send order'' a sale output_sale s1)
          (\<lambda>s2.
          case random_uniform (real_of_int (min_delay p)) (real_of_int (max_delay p)) (env s2)
          of (d, w3) \<Rightarrow>
            Inr (s2\<lparr>env := w3,
                    new_orders_count := new_orders_count s2 + 1,
                    next_order_time := current_time + d\<rparr>)))))
      else Inr s)"

text \<open>Step 3: the identifiers of the orders that are due, collected before any update.\<close>

fun scan_due :: "pydict list \<Rightarrow> (pyval \<times> nat) list \<Rightarrow> real \<Rightarrow> py_error + pyval list" where
  "scan_due h [] current_time = Inr []"
| "scan_due h ((order_id, a) # rest) current_time =
     bindE (should_advance_order (h ! a) current_time) (\<lambda>due.
     bindE (scan_due h rest current_time) (\<lambda>ids.
       Inr (if due then order_id # ids else ids)))"

text \<open>Step 4, for one identifier of the snapshot.\<close>

definition update_order ::
  "params \<Rightarrow> bool \<Rightarrow> real \<Rightarrow> pyval \<Rightarrow> gen_state \<Rightarrow> py_error + gen_state" where
  "update_order p kafka_producer current_time order_id s =
     bindE (table_get (active_orders s) order_id) (\<lambda>a.
     bindE (advance_order_status (heap s ! a) current_time (env s)) (\<lambda>(order, w1).
       let s1 = s\<lparr>env := w1, heap := (heap s)[a := order]\<rparr>;
           output_order = output_fields order
       in
     bindE (dispatch p kafka_producer ''WARNING: Failed to send status update for'' a order
              output_order s1) (\<lambda>s2.
       let s3 = s2\<lparr>status_updates_count := status_updates_count s2 + 1\<rparr> in
     bindE (subscript order ''status'') (\<lambda>status.
       if status = VStr ''shipped''
       then Inr (s3\<lparr>active_orders := AList.delete order_id (active_orders s3),
                    shipped_orders_count := shipped_orders_count s3 + 1\<rparr>)
       else if status = VStr ''cancelled''
       then Inr (s3\<lparr>active_orders := AList.delete order_id (active_orders s3),
                    cancelled_orders_count := cancelled_orders_count s3 + 1\<rparr>)
       else Inr s3))))"

fun update_orders ::
  "params \<Rightarrow> bool \<Rightarrow> real \<Rightarrow> pyval list \<Rightarrow> gen_state \<Rightarrow> py_error + gen_state" where
  "update_orders p kafka_producer current_time [] s = Inr s"
| "update_orders p kafka_producer current_time (order_id # rest) s =
     bindE (update_order p kafka_producer current_time order_id s)
       (update_orders p kafka_producer current_time rest)"

text \<open>One iteration of the loop after the deadline check.\<close>

definition loop_body :: "params \<Rightarrow> bool \<Rightarrow> real \<Rightarrow> gen_state \<Rightarrow> py_error + gen_state" where
  "loop_body p kafka_producer current_time s =
     bindE (admit_order p kafka_producer current_time s) (\<lambda>s1.
     bindE (scan_due (heap s1) (active_orders s1) current_time) (\<lambda>orders_to_update.
       update_orders p kafka_producer current_time orders_to_update s1))"

text \<open>
  The loop reads the clock once per iteration. Its argument is the list of those
  readings: the loop leaves by \<^verbatim>\<open>break\<close> at the first reading that reaches the
  deadline, and a list that ends before is a session interrupted from the keyboard
  during the sleep that follows its last iteration.
\<close>

fun event_loop :: "params \<Rightarrow> bool \<Rightarrow> real list \<Rightarrow> gen_state \<Rightarrow> py_error + gen_state" where
  "event_loop p kafka_producer [] s = Inr s"
| "event_loop p kafka_producer (current_time # later) s =
     (let elapsed_time = current_time - start_time s;
          duration_seconds = duration_minutes p * 60
      in if elapsed_time \<ge> real_of_int duration_seconds then Inr s
         else bindE (loop_body p kafka_producer current_time s) (event_loop p kafka_producer later))"

section \<open>Shutdown statistics\<close>

record report =
  total_new_orders :: int
  total_status_updates :: int
  total_shipped :: int
  total_cancelled :: int
  still_active :: nat
  success_rate :: real
  cancellation_rate :: real
  elapsed_seconds :: real
  average_rate :: real

text \<open>Python's true division raises on a zero divisor, also when the dividend is zero.\<close>

definition py_div :: "real \<Rightarrow> real \<Rightarrow> py_error + real" where
  "py_div x y = (if y = 0 then Inl ZeroDivisionError else Inr (x / y))"

definition final_report :: "real \<Rightarrow> gen_state \<Rightarrow> py_error + report" where
  "final_report now s =
     (let elapsed_time = now - start_time s in
      bindE (if new_orders_count s > 0
             then bindE (py_div (real_of_int (shipped_orders_count s))
                           (real_of_int (new_orders_count s))) (\<lambda>q. Inr (q * 100))
             else Inr 0) (\<lambda>success.
      bindE (if new_orders_count s > 0
             then bindE (py_div (real_of_int (cancelled_orders_count s))
                           (real_of_int (new_orders_count s))) (\<lambda>q. Inr (q * 100))
             else Inr 0) (\<lambda>cancellation.
      bindE (py_div elapsed_time 60) (\<lambda>minutes.
      bindE (py_div (real_of_int (new_orders_count s)) minutes) (\<lambda>rate.
        Inr \<lparr>total_new_orders = new_orders_count s,
             total_status_updates = status_updates_count s,
             total_shipped = shipped_orders_count s,
             total_cancelled = cancelled_orders_count s,
             still_active = length (active_orders s),
             success_rate = success,
             cancellation_rate = cancellation,
             elapsed_seconds = elapsed_time,
             average_rate = rate\<rparr>)))))"

section \<open>The session\<close>

text \<open>
  The readings of \<^verbatim>\<open>time.time()\<close> outside the loop's own: at the start, when the first
  arrival is scheduled, and in the \<^verbatim>\<open>finally\<close> block.
\<close>

record clock =
  t_start :: real
  t_schedule :: real
  tick_times :: "real list"
  t_final :: real

definition initial_state :: "params \<Rightarrow> world \<Rightarrow> clock \<Rightarrow> gen_state" where
  "initial_state p w ck =
     (case random_uniform (real_of_int (min_delay p)) (real_of_int (max_delay p)) w of (d, w1) \<Rightarrow>
        \<lparr>env = w1, start_time = t_start ck, heap = [], active_orders = [],
         new_orders_count = 0, status_updates_count = 0, shipped_orders_count = 0,
         cancelled_orders_count = 0, next_order_time = t_schedule ck + d,
         kafka_out = [], console_out = [], warnings = []\<rparr>)"

definition create_kafka_producer :: "world \<Rightarrow> bool" where
  "create_kafka_producer w = kafka_connect w"

definition run_generator :: "params \<Rightarrow> world \<Rightarrow> clock \<Rightarrow> py_error + gen_state \<times> report" where
  "run_generator p w ck =
     (let kafka_producer =
            (if truthy (kafka_bootstrap_servers p) \<and> truthy (kafka_topic p)
             then create_kafka_producer w else False)
      in bindE (event_loop p kafka_producer (tick_times ck) (initial_state p w ck)) (\<lambda>s.
         bindE (final_report (t_final ck) s) (\<lambda>r. Inr (s, r))))"



section \<open>Properties of orders and of the loop's state\<close>

definition active_statuses :: "pyval list" where
  "active_statuses = [VStr ''pending'', VStr ''confirmed'', VStr ''processing'']"

definition terminal_statuses :: "pyval list" where
  "terminal_statuses = [VStr ''shipped'', VStr ''cancelled'']"

definition lifecycle_step :: "pyval \<Rightarrow> pyval \<Rightarrow> bool" where
  "lifecycle_step s s' \<longleftrightarrow>
     (s, s') \<in> set [(VStr ''pending'', VStr ''confirmed''),
                     (VStr ''confirmed'', VStr ''processing''),
                     (VStr ''processing'', VStr ''shipped''),
                     (VStr ''pending'', VStr ''cancelled''),
                     (VStr ''confirmed'', VStr ''cancelled''),
                     (VStr ''processing'', VStr ''cancelled'')]"

definition payload_fields :: "string list" where
  "payload_fields =
     [''order_id'', ''timestamp'', ''product_id'', ''product_name'', ''quantity'', ''price'',
      ''total'', ''customer_id'', ''customer_email'', ''payment_method'', ''shipping_address'',
      ''status'', ''cancellation_reason'']"

definition internal_fields :: "string list" where
  "internal_fields = [''last_status_change'', ''transition_time'']"

definition reason_from :: "pyval \<Rightarrow> pydict \<Rightarrow> bool" where
  "reason_from st order' \<longleftrightarrow>
     (case (map_of CANCELLATION_REASONS st, map_of order' ''cancellation_reason'') of
        (Some reasons, Some (VStr r)) \<Rightarrow> r \<in> set reasons
      | _ \<Rightarrow> False)"

definition order_step :: "pydict \<Rightarrow> pydict \<Rightarrow> bool" where
  "order_step order order' \<longleftrightarrow>
     (case (map_of order ''status'', map_of order' ''status'') of
        (Some st, Some st') \<Rightarrow>
          lifecycle_step st st' \<and> (st' = VStr ''cancelled'' \<longrightarrow> reason_from st order')
      | _ \<Rightarrow> False)"

definition wf_order :: "pydict \<Rightarrow> bool" where
  "wf_order order \<longleftrightarrow>
     (\<exists>st \<in> set (active_statuses @ terminal_statuses). map_of order ''status'' = Some st) \<and>
     (map_of order ''cancellation_reason'' \<noteq> None \<longleftrightarrow>
        map_of order ''status'' = Some (VStr ''cancelled'')) \<and>
     fst ` set order \<subseteq> set (payload_fields @ internal_fields)"

definition wf_active :: "pyval \<Rightarrow> pydict \<Rightarrow> bool" where
  "wf_active k order \<longleftrightarrow>
     wf_order order \<and>
     (\<exists>st \<in> set active_statuses. map_of order ''status'' = Some st) \<and>
     (\<exists>x. map_of order ''last_status_change'' = Some (VFloat x)) \<and>
     (\<exists>y. map_of order ''transition_time'' = Some (VFloat y)) \<and>
     map_of order ''order_id'' = Some k \<and> hashable k"

definition sale_fields :: "string list" where
  "sale_fields =
     [''order_id'', ''timestamp'', ''product_id'', ''product_name'', ''quantity'', ''price'',
      ''total'', ''customer_id'', ''customer_email'', ''payment_method'', ''shipping_address'',
      ''status'']"

definition log_ok :: "nat \<Rightarrow> nat \<Rightarrow> pydict \<Rightarrow> bool" where
  "log_ok n a e \<longleftrightarrow> a < n \<and> fst ` set e \<subseteq> set payload_fields"

definition state_inv :: "gen_state \<Rightarrow> bool" where
  "state_inv s \<longleftrightarrow>
     distinct (map fst (active_orders s)) \<and>
     distinct (map snd (active_orders s)) \<and>
     (\<forall>(k, a) \<in> set (active_orders s). a < length (heap s) \<and> wf_active k (heap s ! a)) \<and>
     (\<forall>order \<in> set (heap s). wf_order order) \<and>
     (\<forall>(a, e) \<in> set (console_out s). log_ok (length (heap s)) a e) \<and>
     (\<forall>m \<in> set (kafka_out s). log_ok (length (heap s)) (msg_obj m) (msg_value m))"

definition addrs_of :: "(pyval \<times> nat) list \<Rightarrow> pyval list \<Rightarrow> nat list" where
  "addrs_of reg ids = map snd (filter (\<lambda>(k, a). k \<in> set ids) reg)"

text \<open>
  The orders that the update pass of one tick hands to \<^verbatim>\<open>advance_order_status\<close>, in the
  order of the calls, each as it is when the call is made: the pass looks the identifier
  up in the registry and calls the function on what it finds.
\<close>

fun advance_calls :: "params \<Rightarrow> bool \<Rightarrow> real \<Rightarrow> pyval list \<Rightarrow> gen_state \<Rightarrow> pydict list" where
  "advance_calls p kafka_producer current_time [] s = []"
| "advance_calls p kafka_producer current_time (order_id # rest) s =
     (case table_get (active_orders s) order_id of
        Inl e \<Rightarrow> []
      | Inr a \<Rightarrow> (heap s ! a) #
          (case update_order p kafka_producer current_time order_id s of
             Inl e \<Rightarrow> []
           | Inr s' \<Rightarrow> advance_calls p kafka_producer current_time rest s'))"

text \<open>The calls of a whole tick: the snapshot is taken after the admission step.\<close>

definition tick_calls :: "params \<Rightarrow> bool \<Rightarrow> real \<Rightarrow> gen_state \<Rightarrow> pydict list" where
  "tick_calls p kafka_producer current_time s =
     (case admit_order p kafka_producer current_time s of
        Inl e \<Rightarrow> []
      | Inr s1 \<Rightarrow>
          (case scan_due (heap s1) (active_orders s1) current_time of
             Inl e \<Rightarrow> []
           | Inr orders_to_update \<Rightarrow>
               advance_calls p kafka_producer current_time orders_to_update s1))"

text \<open>Both status lookups succeed on an order: its status is one of the three active ones.\<close>

definition lookups_succeed :: "pydict \<Rightarrow> bool" where
  "lookups_succeed order \<longleftrightarrow>
     (\<exists>st \<in> set active_statuses. map_of order ''status'' = Some st \<and>
        isl (get_next_status st) = False \<and> isl (table_get STATUS_TRANSITION_TIMES st) = False)"

text \<open>
  The cancellation reason of an order: the field is there exactly when the order is
  cancelled, and over a step a cancelled order stays as it is while an order that
  becomes cancelled carries a reason of the state it leaves.
\<close>

definition reason_iff_cancelled :: "pydict \<Rightarrow> bool" where
  "reason_iff_cancelled order \<longleftrightarrow>
     (map_of order ''cancellation_reason'' \<noteq> None \<longleftrightarrow>
        map_of order ''status'' = Some (VStr ''cancelled''))"

definition cancellation_step :: "pydict \<Rightarrow> pydict \<Rightarrow> bool" where
  "cancellation_step order order' \<longleftrightarrow>
     (case map_of order ''status'' of
        None \<Rightarrow> False
      | Some st \<Rightarrow>
          if st = VStr ''cancelled'' then order' = order
          else map_of order' ''status'' = Some (VStr ''cancelled'') \<longrightarrow> reason_from st order')"

section \<open>Concrete sessions\<close>

definition const_world :: "bool \<Rightarrow> nat \<Rightarrow> world" where
  "const_world connect r =
     \<lparr>kafka_connect = connect, rand_src = (\<lambda>n. r), fake_src = (\<lambda>n. ''x''),
      utc_src = (\<lambda>n. ''2024-01-01T00:00:00''), kafka_src = (\<lambda>n. True)\<rparr>"




definition advance_world :: world where
  "advance_world = const_world True 4503599627370496"

definition advance_params :: params where
  "advance_params =
     \<lparr>duration_minutes = 5, min_delay = 1, max_delay = 60,
      kafka_bootstrap_servers = Some ''localhost:9092'', kafka_topic = Some ''sales'',
      output_console = True\<rparr>"

definition advance_clock :: clock where
  "advance_clock = \<lparr>t_start = 0, t_schedule = 0, tick_times = [31, 51], t_final = 52\<rparr>"

definition sale_at :: "string \<Rightarrow> real \<Rightarrow> real \<Rightarrow> pydict" where
  "sale_at status changed dwell =
     [(''order_id'', VStr ''ORD-87370496''),
      (''timestamp'', VStr ''2024-01-01T00:00:00Z''),
      (''product_id'', VStr ''PROD-002''),
      (''product_name'', VStr ''Smart Watch''),
      (''quantity'', VInt 2),
      (''price'', VFloat (29999 / 100)),
      (''total'', VFloat (29999 / 50)),
      (''customer_id'', VStr ''CUST-970496''),
      (''customer_email'', VStr ''x''),
      (''payment_method'', VStr ''google_pay''),
      (''shipping_address'',
         VDict [(''street'', VStr ''x''), (''city'', VStr ''x''), (''state'', VStr ''x''),
                (''zip_code'', VStr ''x''), (''country'', VStr ''x'')]),
      (''status'', VStr status),
      (''last_status_change'', VFloat changed),
      (''transition_time'', VFloat dwell)]"

definition sale_message :: "pydict \<Rightarrow> kafka_msg" where
  "sale_message order =
     \<lparr>msg_obj = 0, msg_topic = Some ''sales'', msg_key = VStr ''ORD-87370496'',
      msg_value = output_fields order, msg_acked = True\<rparr>"

definition advance_state1 :: gen_state where
  "advance_state1 =
     \<lparr>env = advance_world, start_time = 0, heap = [sale_at ''pending'' 31 20],
      active_orders = [(VStr ''ORD-87370496'', 0)],
      new_orders_count = 1, status_updates_count = 0, shipped_orders_count = 0,
      cancelled_orders_count = 0, next_order_time = 123 / 2,
      kafka_out = [sale_message (sale_at ''pending'' 31 20)],
      console_out = [(0, output_fields (sale_at ''pending'' 31 20))],
      warnings = []\<rparr>"

definition advance_state2 :: gen_state where
  "advance_state2 =
     \<lparr>env = advance_world, start_time = 0, heap = [sale_at ''confirmed'' 51 30],
      active_orders = [(VStr ''ORD-87370496'', 0)],
      new_orders_count = 1, status_updates_count = 1, shipped_orders_count = 0,
      cancelled_orders_count = 0, next_order_time = 123 / 2,
      kafka_out = [sale_message (sale_at ''pending'' 31 20),
                   sale_message (sale_at ''confirmed'' 51 30)],
      console_out = [(0, output_fields (sale_at ''pending'' 31 20)),
                     (0, output_fields (sale_at ''confirmed'' 51 30))],
      warnings = []\<rparr>"

definition status_step :: "pydict \<Rightarrow> pydict \<Rightarrow> bool" where
  "status_step order order' \<longleftrightarrow>
     (case (map_of order ''status'', map_of order' ''status'') of
        (Some st, Some st') \<Rightarrow> st' = st \<or> lifecycle_step st st'
      | _ \<Rightarrow> False)"

definition visible_only :: "pydict \<Rightarrow> bool" where
  "visible_only payload \<longleftrightarrow>
     set (map fst payload) \<subseteq> set payload_fields \<and>
     ''last_status_change'' \<notin> set (map fst payload) \<and>
     ''transition_time'' \<notin> set (map fst payload)"

text \<open>
  Sessions in which every random draw is 0: each order is the first product at its lowest
  price with the identifier \<^verbatim>\<open>ORD-10000000\<close> and a dwell of 10 s, and every due order is
  cancelled with the first reason of its state.
\<close>

definition headphones_sale :: "string \<Rightarrow> real \<Rightarrow> real \<Rightarrow> pydict" where
  "headphones_sale status changed dwell =
     [(''order_id'', VStr ''ORD-10000000''),
      (''timestamp'', VStr ''2024-01-01T00:00:00Z''),
      (''product_id'', VStr ''PROD-001''),
      (''product_name'', VStr ''Wireless Bluetooth Headphones''),
      (''quantity'', VInt 1),
      (''price'', VFloat (2999 / 100)),
      (''total'', VFloat (2999 / 100)),
      (''customer_id'', VStr ''CUST-100000''),
      (''customer_email'', VStr ''x''),
      (''payment_method'', VStr ''credit_card''),
      (''shipping_address'',
         VDict [(''street'', VStr ''x''), (''city'', VStr ''x''), (''state'', VStr ''x''),
                (''zip_code'', VStr ''x''), (''country'', VStr ''x'')]),
      (''status'', VStr status),
      (''last_status_change'', VFloat changed),
      (''transition_time'', VFloat dwell)]"

definition cancelled_sale :: "real \<Rightarrow> pydict" where
  "cancelled_sale changed =
     headphones_sale ''cancelled'' changed 10 @
       [(''cancellation_reason'', VStr ''payment_failed'')]"

definition cancel_params :: params where
  "cancel_params =
     \<lparr>duration_minutes = 5, min_delay = 100, max_delay = 200,
      kafka_bootstrap_servers = None, kafka_topic = None, output_console = True\<rparr>"

definition cancel_clock :: clock where
  "cancel_clock = \<lparr>t_start = 0, t_schedule = 0, tick_times = [100, 110], t_final = 111\<rparr>"

definition cancel_state1 :: gen_state where
  "cancel_state1 =
     \<lparr>env = const_world False 0, start_time = 0, heap = [headphones_sale ''pending'' 100 10],
      active_orders = [(VStr ''ORD-10000000'', 0)],
      new_orders_count = 1, status_updates_count = 0, shipped_orders_count = 0,
      cancelled_orders_count = 0, next_order_time = 200,
      kafka_out = [],
      console_out = [(0, output_fields (headphones_sale ''pending'' 100 10))],
      warnings = []\<rparr>"

definition cancel_state2 :: gen_state where
  "cancel_state2 =
     \<lparr>env = const_world False 0, start_time = 0, heap = [cancelled_sale 110],
      active_orders = [],
      new_orders_count = 1, status_updates_count = 1, shipped_orders_count = 0,
      cancelled_orders_count = 1, next_order_time = 200,
      kafka_out = [],
      console_out = [(0, output_fields (headphones_sale ''pending'' 100 10)),
                     (0, output_fields (cancelled_sale 110))],
      warnings = []\<rparr>"

definition collision_params :: params where
  "collision_params =
     \<lparr>duration_minutes = 1, min_delay = 20, max_delay = 20,
      kafka_bootstrap_servers = None, kafka_topic = None, output_console = True\<rparr>"

definition collision_clock :: clock where
  "collision_clock =
     \<lparr>t_start = 0, t_schedule = 0, tick_times = [20, 40, 50, 60], t_final = 61\<rparr>"

definition collision_state :: gen_state where
  "collision_state =
     \<lparr>env = const_world False 0, start_time = 0,
      heap = [headphones_sale ''pending'' 20 10, cancelled_sale 50],
      active_orders = [],
      new_orders_count = 2, status_updates_count = 1, shipped_orders_count = 0,
      cancelled_orders_count = 1, next_order_time = 60,
      kafka_out = [],
      console_out = [(0, output_fields (headphones_sale ''pending'' 20 10)),
                     (1, output_fields (headphones_sale ''pending'' 40 10)),
                     (1, output_fields (cancelled_sale 50))],
      warnings = []\<rparr>"

definition zero_duration_params :: params where
  "zero_duration_params =
     \<lparr>duration_minutes = 0, min_delay = 1, max_delay = 60,
      kafka_bootstrap_servers = None, kafka_topic = None, output_console = True\<rparr>"

definition coarse_clock :: clock where
  "coarse_clock =
     \<lparr>t_start = 1700000000, t_schedule = 1700000000, tick_times = [1700000000],
      t_final = 1700000000\<rparr>"

section \<open>The lifecycle policy on well-formed orders\<close>

lemma bindE_simps [simp]: "bindE (Inl e) f = Inl e" "bindE (Inr x) f = f x"
  by (simp_all add: bindE_def)

lemma bindE_eq_Inr: "bindE m f = Inr y \<longleftrightarrow> (\<exists>x. m = Inr x \<and> f x = Inr y)"
  by (cases m) simp_all

lemma get_next_status_active:
  "get_next_status (VStr ''pending'') = Inr (VStr ''confirmed'')"
  "get_next_status (VStr ''confirmed'') = Inr (VStr ''processing'')"
  "get_next_status (VStr ''processing'') = Inr (VStr ''shipped'')"
  "get_next_status (VStr ''shipped'') = Inr (VStr ''shipped'')"
  "get_next_status (VStr ''cancelled'') = Inl ValueError"
  by (simp_all add: get_next_status_def ORDER_STATUS_FLOW_def)

lemma table_get_times:
  "table_get STATUS_TRANSITION_TIMES (VStr ''pending'') = Inr (10, 30)"
  "table_get STATUS_TRANSITION_TIMES (VStr ''confirmed'') = Inr (15, 45)"
  "table_get STATUS_TRANSITION_TIMES (VStr ''processing'') = Inr (20, 60)"
  "table_get STATUS_TRANSITION_TIMES (VStr ''shipped'') = Inl KeyError"
  "table_get STATUS_TRANSITION_TIMES (VStr ''cancelled'') = Inl KeyError"
  by (simp_all add: table_get_def STATUS_TRANSITION_TIMES_def)

lemma random_choice_mem:
  "xs \<noteq> [] \<Longrightarrow> \<exists>x w'. random_choice xs w = Inr (x, w') \<and> x \<in> set xs"
  by (simp add: random_choice_def next_raw_def)

lemma random_random_range:
  "random_random w = (u, w') \<Longrightarrow> 0 \<le> u \<and> u < 1"
  by (auto simp add: random_random_def next_raw_def)

lemma random_uniform_range:
  assumes "random_uniform a b w = (x, w')" and "a \<le> b"
  shows "a \<le> x \<and> x \<le> b"
proof -
  obtain u w1 where u: "random_random w = (u, w1)" by (cases "random_random w")
  then have r: "0 \<le> u \<and> u < 1" by (rule random_random_range)
  from assms u have x: "x = a + (b - a) * u" by (simp add: random_uniform_def)
  have "0 \<le> (b - a) * u" using r assms(2) by simp
  moreover have "(b - a) * u \<le> (b - a) * 1" using r assms(2) by (intro mult_left_mono) auto
  ultimately show ?thesis using x by simp
qed

lemma should_cancel_order_cases:
  "\<exists>c w'. should_cancel_order st w = (c, w')"
  by (cases "should_cancel_order st w") simp

lemma cancel_order_spec:
  assumes "wf_active k order"
  shows "\<exists>order' w'. cancel_order order t w = Inr (order', w') \<and> wf_order order' \<and>
           order_step order order' \<and> map_of order' ''status'' = Some (VStr ''cancelled'') \<and>
           map_of order' ''order_id'' = Some k"
proof -
  from assms obtain st where st: "st \<in> set active_statuses" "map_of order ''status'' = Some st"
    and wf: "wf_order order" and k: "map_of order ''order_id'' = Some k"
    by (auto simp: wf_active_def)
  from st(1) obtain reasons where rs: "map_of CANCELLATION_REASONS st = Some reasons" "reasons \<noteq> []"
    "hashable st"
    by (auto simp: active_statuses_def CANCELLATION_REASONS_def)
  from random_choice_mem [OF rs(2)] obtain r w1 where
    r: "random_choice reasons w = Inr (r, w1)" "r \<in> set reasons" by blast
  obtain now w2 where now: "utcnow_isoformat w1 = (now, w2)" by (cases "utcnow_isoformat w1")
  let ?o = "AList.update ''last_status_change'' (VFloat t)
               (AList.update ''timestamp'' (VStr (now @ ''Z''))
                 (AList.update ''cancellation_reason'' (VStr r)
                   (AList.update ''status'' (VStr ''cancelled'') order)))"
  have eq: "cancel_order order t w = Inr (?o, w2)"
    using st rs r now by (simp add: cancel_order_def subscript_def table_contains_def table_get_def)
  have wfo: "wf_order ?o"
    using wf by (auto simp: wf_order_def update_conv' dom_update terminal_statuses_def
        payload_fields_def internal_fields_def)
  have step: "order_step order ?o"
    using st rs r by (auto simp: order_step_def update_conv' lifecycle_step_def reason_from_def
        active_statuses_def)
  show ?thesis using eq wfo step k by (simp add: update_conv')
qed

lemma advance_order_status_spec:
  assumes "wf_active k order"
  shows "\<exists>order' w'. advance_order_status order t w = Inr (order', w') \<and> wf_order order' \<and>
           order_step order order' \<and> map_of order' ''order_id'' = Some k \<and>
           ((\<exists>st \<in> set active_statuses. map_of order' ''status'' = Some st) \<longrightarrow>
              wf_active k order')"
proof -
  from assms obtain st where st: "st \<in> set active_statuses" "map_of order ''status'' = Some st"
    and wf: "wf_order order" and k: "map_of order ''order_id'' = Some k" "hashable k"
    by (auto simp: wf_active_def)
  obtain c w1 where c: "should_cancel_order st w = (c, w1)" by (cases "should_cancel_order st w")
  show ?thesis
  proof (cases c)
    case True
    from cancel_order_spec [OF assms, of t w1] obtain order' w' where
      co: "cancel_order order t w1 = Inr (order', w')" "wf_order order'" "order_step order order'"
        "map_of order' ''status'' = Some (VStr ''cancelled'')" "map_of order' ''order_id'' = Some k"
      by blast
    have "advance_order_status order t w = Inr (order', w')"
      using st c True co(1) by (simp add: advance_order_status_def subscript_def)
    then show ?thesis using co by (auto simp: active_statuses_def)
  next
    case False
    obtain now w2 where now: "utcnow_isoformat w1 = (now, w2)" by (cases "utcnow_isoformat w1")
    obtain ns where ns: "get_next_status st = Inr ns" "lifecycle_step st ns" "ns \<noteq> VStr ''cancelled''"
      using st(1) by (auto simp: active_statuses_def get_next_status_active lifecycle_step_def)
    let ?o1 = "AList.update ''last_status_change'' (VFloat t)
                 (AList.update ''timestamp'' (VStr (now @ ''Z''))
                   (AList.update ''status'' ns order))"
    have nocr: "map_of order ''cancellation_reason'' = None"
      using wf st by (auto simp: wf_order_def active_statuses_def)
    have ns5: "ns \<in> set (active_statuses @ terminal_statuses)"
      using st(1) ns(1) by (auto simp: active_statuses_def terminal_statuses_def get_next_status_active)
    show ?thesis
    proof (cases "ns = VStr ''shipped''")
      case True
      have eq: "advance_order_status order t w = Inr (?o1, w2)"
        using st c False ns now True by (simp add: advance_order_status_def subscript_def)
      have "wf_order ?o1"
        using wf nocr ns5 ns(3) by (auto simp: wf_order_def update_conv' dom_update
            payload_fields_def internal_fields_def)
      moreover have "order_step order ?o1"
        using st ns by (simp add: order_step_def update_conv')
      ultimately show ?thesis using eq k True by (auto simp: update_conv' active_statuses_def)
    next
      case ship: False
      then have act: "ns \<in> set active_statuses"
        using st(1) ns(1) by (auto simp: active_statuses_def get_next_status_active)
      then obtain mn mx where tab: "table_get STATUS_TRANSITION_TIMES ns = Inr (mn, mx)"
        by (auto simp: active_statuses_def table_get_times)
      obtain x w3 where x: "random_uniform (real_of_int mn) (real_of_int mx) w2 = (x, w3)"
        by (cases "random_uniform (real_of_int mn) (real_of_int mx) w2")
      let ?o2 = "AList.update ''transition_time'' (VFloat x) ?o1"
      have eq: "advance_order_status order t w = Inr (?o2, w3)"
        using st c False ns now ship tab x by (simp add: advance_order_status_def subscript_def)
      have wfo: "wf_order ?o2"
        using wf nocr ns5 ns(3) by (auto simp: wf_order_def update_conv' dom_update
            payload_fields_def internal_fields_def)
      moreover have "order_step order ?o2"
        using st ns by (simp add: order_step_def update_conv')
      moreover have "wf_active k ?o2"
        using wfo act k by (auto simp: wf_active_def update_conv')
      ultimately show ?thesis using eq k by (auto simp: update_conv')
    qed
  qed
qed

lemma should_advance_order_terminal:
  "map_of order ''status'' = Some st \<Longrightarrow> st \<in> set terminal_statuses \<Longrightarrow>
   should_advance_order order t = Inr False"
  by (auto simp: should_advance_order_def subscript_def terminal_statuses_def)

lemma should_advance_order_True:
  assumes "should_advance_order order t = Inr True"
  shows "\<exists>st \<in> set active_statuses. map_of order ''status'' = Some st"
proof -
  from assms obtain st where st: "map_of order ''status'' = Some st"
    by (auto simp: should_advance_order_def subscript_def split: option.splits)
  with assms have "st \<notin> set terminal_statuses" "\<exists>v. table_get STATUS_TRANSITION_TIMES st = Inr v"
    by (auto simp: should_advance_order_def subscript_def terminal_statuses_def bindE_eq_Inr
        split: option.splits if_splits)
  then have "st \<in> set active_statuses"
    by (auto simp: table_get_def STATUS_TRANSITION_TIMES_def active_statuses_def
        split: if_splits option.splits)
  with st show ?thesis by blast
qed

lemma should_advance_order_active:
  assumes "wf_active k order"
  shows "\<exists>x y. map_of order ''last_status_change'' = Some (VFloat x) \<and>
           map_of order ''transition_time'' = Some (VFloat y) \<and>
           should_advance_order order t = Inr (t - x \<ge> y)"
proof -
  from assms obtain st x y where st: "st \<in> set active_statuses" "map_of order ''status'' = Some st"
    and x: "map_of order ''last_status_change'' = Some (VFloat x)"
    and y: "map_of order ''transition_time'' = Some (VFloat y)"
    by (auto simp: wf_active_def)
  from st(1) obtain v where "table_get STATUS_TRANSITION_TIMES st = Inr v"
    by (auto simp: active_statuses_def table_get_times)
  then have "should_advance_order order t = Inr (t - x \<ge> y)"
    using st x y by (cases v) (auto simp: should_advance_order_def subscript_def active_statuses_def)
  with x y show ?thesis by blast
qed

lemma PRODUCTS_nonempty: "PRODUCTS \<noteq> []"
  by (simp add: PRODUCTS_def)

lemma PAYMENT_METHODS_nonempty: "PAYMENT_METHODS \<noteq> []"
  by (simp add: PAYMENT_METHODS_def)

lemma generate_sale_spec:
  "\<exists>sale w' oid. generate_sale w = Inr (sale, w') \<and>
     map fst sale = sale_fields \<and>
     map_of sale ''order_id'' = Some (VStr oid) \<and>
     map_of sale ''status'' = Some (VStr ''pending'')"
  by (simp add: generate_sale_def random_choice_def PRODUCTS_nonempty PAYMENT_METHODS_nonempty
      next_raw_def random_randint_def random_uniform_def random_random_def generate_order_id_def
      generate_customer_id_def utcnow_isoformat_def next_fake_def generate_address_def Let_def
      sale_fields_def)

lemma output_fields_keys:
  "fst ` set (output_fields order) = fst ` set order - set internal_fields"
  by (auto simp: output_fields_def internal_fields_def image_iff)

lemma output_fields_payload:
  "wf_order order \<Longrightarrow> fst ` set (output_fields order) \<subseteq> set payload_fields"
  unfolding output_fields_keys by (auto simp: wf_order_def)

lemma set_update_subset: "set (AList.update k v al) \<subseteq> insert (k, v) (set al)"
  by (induction al) auto

lemma distinct_snd_update:
  "distinct (map snd al) \<Longrightarrow> v \<notin> snd ` set al \<Longrightarrow> distinct (map snd (AList.update k v al))"
proof (induction al)
  case Nil
  then show ?case by simp
next
  case (Cons p al)
  have "snd ` set (AList.update k v al) \<subseteq> insert v (snd ` set al)"
    using set_update_subset [of k v al] by force
  with Cons show ?case by (auto simp: image_iff)
qed

lemma set_delete_subset: "set (AList.delete k al) \<subseteq> set al"
  by (auto simp: AList.delete_eq)

lemma distinct_snd_delete:
  "distinct (map snd al) \<Longrightarrow> distinct (map snd (AList.delete k al))"
  by (simp add: AList.delete_eq distinct_map_filter)

lemma dispatch_spec:
  assumes "map_of order ''order_id'' = Some k"
  shows "\<exists>w' ks ws cs. dispatch p kp label a order payload s =
           Inr (s\<lparr>env := w', kafka_out := kafka_out s @ ks, warnings := warnings s @ ws,
                  console_out := console_out s @ cs\<rparr>) \<and>
           (\<forall>m \<in> set ks. msg_obj m = a \<and> msg_value m = payload) \<and>
           (\<forall>(b, e) \<in> set cs. b = a \<and> e = payload)"
proof -
  obtain ok w1 where ack: "next_ack (env s) = (ok, w1)" by (cases "next_ack (env s)")
  let ?m = "\<lparr>msg_obj = a, msg_topic = kafka_topic p, msg_key = k, msg_value = payload,
              msg_acked = ok\<rparr>"
  let ?w = "if kp then w1 else env s"
  let ?ks = "if kp then [?m] else []"
  let ?ws = "if kp \<and> \<not> ok then [(label, k)] else []"
  let ?cs = "if output_console p then [(a, payload)] else []"
  have "dispatch p kp label a order payload s =
           Inr (s\<lparr>env := ?w, kafka_out := kafka_out s @ ?ks, warnings := warnings s @ ?ws,
                  console_out := console_out s @ ?cs\<rparr>)"
    using assms ack by (simp add: dispatch_def subscript_def send_to_kafka_def)
  moreover have "\<forall>m \<in> set ?ks. msg_obj m = a \<and> msg_value m = payload" by simp
  moreover have "\<forall>(b, e) \<in> set ?cs. b = a \<and> e = payload" by simp
  ultimately show ?thesis by blast
qed

lemma log_ok_mono: "log_ok n a e \<Longrightarrow> n \<le> n' \<Longrightarrow> log_ok n' a e"
  by (simp add: log_ok_def)

lemma log_ok_Suc: "log_ok n a e \<Longrightarrow> log_ok (Suc n) a e"
  by (simp add: log_ok_def)

lemma admit_order_spec:
  assumes "state_inv s"
  shows "\<exists>s1 new ks cs. admit_order p kp t s = Inr s1 \<and> state_inv s1 \<and>
           heap s1 = heap s @ new \<and>
           (\<forall>order \<in> set new. map_of order ''status'' = Some (VStr ''pending'') \<and>
              should_advance_order order t = Inr False) \<and>
           kafka_out s1 = kafka_out s @ ks \<and> console_out s1 = console_out s @ cs \<and>
           (\<forall>m \<in> set ks. msg_obj m = length (heap s)) \<and>
           (\<forall>(b, e) \<in> set cs. b = length (heap s)) \<and>
           (\<forall>(k, a) \<in> set (active_orders s1).
              (k, a) \<in> set (active_orders s) \<or> a = length (heap s)) \<and>
           start_time s1 = start_time s"
proof (cases "t \<ge> next_order_time s")
  case False
  then have "admit_order p kp t s = Inr s" by (simp add: admit_order_def)
  with assms show ?thesis by (intro exI [of _ s] exI [of _ "[]"]) auto
next
  case True
  obtain sale0 w1 oid where gs: "generate_sale (env s) = Inr (sale0, w1)"
    and keys0: "map fst sale0 = sale_fields"
    and oid: "map_of sale0 ''order_id'' = Some (VStr oid)"
    and st0: "map_of sale0 ''status'' = Some (VStr ''pending'')"
    using generate_sale_spec [of "env s"] by blast
  obtain x w2 where x: "random_uniform (real_of_int 10) (real_of_int 30) w1 = (x, w2)"
    by (cases "random_uniform (real_of_int 10) (real_of_int 30) w1")
  let ?sale = "AList.update ''transition_time'' (VFloat x)
                 (AList.update ''last_status_change'' (VFloat t) sale0)"
  let ?a = "length (heap s)"
  let ?s1 = "s\<lparr>env := w2, heap := heap s @ [?sale],
               active_orders := AList.update (VStr oid) ?a (active_orders s)\<rparr>"
  have oid': "map_of ?sale ''order_id'' = Some (VStr oid)"
    using oid by (simp add: update_conv')
  from dispatch_spec [OF oid', of p kp "''WARNING: Failed to send order''" ?a
      "output_fields ?sale" ?s1]
  obtain w3 ks ws cs where
    d: "dispatch p kp ''WARNING: Failed to send order'' ?a ?sale (output_fields ?sale) ?s1 =
          Inr (?s1\<lparr>env := w3, kafka_out := kafka_out ?s1 @ ks, warnings := warnings ?s1 @ ws,
                   console_out := console_out ?s1 @ cs\<rparr>)"
    and ks: "\<forall>m \<in> set ks. msg_obj m = ?a \<and> msg_value m = output_fields ?sale"
    and cs: "\<forall>(b, e) \<in> set cs. b = ?a \<and> e = output_fields ?sale"
    by blast
  let ?s2 = "?s1\<lparr>env := w3, kafka_out := kafka_out ?s1 @ ks, warnings := warnings ?s1 @ ws,
                 console_out := console_out ?s1 @ cs\<rparr>"
  obtain dl w4 where dl: "random_uniform (real_of_int (min_delay p)) (real_of_int (max_delay p))
      (env ?s2) = (dl, w4)"
    by (cases "random_uniform (real_of_int (min_delay p)) (real_of_int (max_delay p)) (env ?s2)")
  let ?s3 = "?s2\<lparr>env := w4, new_orders_count := new_orders_count ?s2 + 1,
                  next_order_time := t + dl\<rparr>"
  have eq: "admit_order p kp t s = Inr ?s3"
    using True gs x oid' d dl
    by (simp add: admit_order_def table_get_times subscript_def Let_def)
  have keys_set: "fst ` set sale0 = set sale_fields" using keys0 by (metis list.set_map)
  have nocr0: "map_of sale0 ''cancellation_reason'' = None"
    unfolding map_of_eq_None_iff keys_set by (simp add: sale_fields_def)
  have wfo: "wf_order ?sale"
    unfolding wf_order_def
    using st0 nocr0 by (auto simp: update_conv' dom_update keys_set sale_fields_def
        active_statuses_def payload_fields_def internal_fields_def)
  then have wfa: "wf_active (VStr oid) ?sale"
    using st0 oid by (auto simp: wf_active_def update_conv' active_statuses_def)
  have "10 \<le> x" using random_uniform_range [OF x] by simp
  then have nodue: "should_advance_order ?sale t = Inr False"
    using st0 by (simp add: should_advance_order_def subscript_def update_conv' table_get_times)
  have pay: "fst ` set (output_fields ?sale) \<subseteq> set payload_fields"
    using wfo by (rule output_fields_payload)
  from assms have inv: "distinct (map fst (active_orders s))" "distinct (map snd (active_orders s))"
    "\<forall>(k, a) \<in> set (active_orders s). a < length (heap s) \<and> wf_active k (heap s ! a)"
    "\<forall>order \<in> set (heap s). wf_order order"
    "\<forall>(a, e) \<in> set (console_out s). log_ok (length (heap s)) a e"
    "\<forall>m \<in> set (kafka_out s). log_ok (length (heap s)) (msg_obj m) (msg_value m)"
    by (auto simp: state_inv_def)
  have fresh: "?a \<notin> snd ` set (active_orders s)" using inv(3) by force
  have reg: "\<forall>(k, a) \<in> set (AList.update (VStr oid) ?a (active_orders s)).
               (k, a) \<in> set (active_orders s) \<or> (k = VStr oid \<and> a = ?a)"
    using set_update_subset [of "VStr oid" ?a "active_orders s"] by auto
  have i1: "distinct (map fst (active_orders ?s3))" using inv(1) by (simp add: distinct_update)
  have i2: "distinct (map snd (active_orders ?s3))"
    using inv(2) fresh by (simp add: distinct_snd_update)
  have i3: "\<forall>(k, a) \<in> set (active_orders ?s3). a < length (heap ?s3) \<and> wf_active k (heap ?s3 ! a)"
    using reg inv(3) wfa by (auto simp: nth_append)
  have i4: "\<forall>order \<in> set (heap ?s3). wf_order order" using inv(4) wfo by auto
  have new_ok: "log_ok (Suc ?a) ?a (output_fields ?sale)" using pay by (simp add: log_ok_def)
  have i5: "\<forall>(a, e) \<in> set (console_out ?s3). log_ok (length (heap ?s3)) a e"
    using inv(5) cs new_ok by (fastforce intro: log_ok_Suc)
  have i6: "\<forall>m \<in> set (kafka_out ?s3). log_ok (length (heap ?s3)) (msg_obj m) (msg_value m)"
    using inv(6) ks new_ok by (fastforce intro: log_ok_Suc)
  have sinv: "state_inv ?s3" unfolding state_inv_def using i1 i2 i3 i4 i5 i6 by blast
  show ?thesis
    apply (intro exI [of _ ?s3] exI [of _ "[?sale]"] exI [of _ ks] exI [of _ cs])
    using eq sinv st0 nodue ks cs reg by (auto simp: update_conv')
qed

lemma scan_due_spec:
  assumes "\<forall>(k, a) \<in> set reg. wf_active k (h ! a)"
  shows "scan_due h reg t =
           Inr (map fst (filter (\<lambda>(k, a). should_advance_order (h ! a) t = Inr True) reg))"
  using assms
proof (induction reg)
  case Nil
  then show ?case by simp
next
  case (Cons p reg)
  obtain k a where p: "p = (k, a)" by (cases p)
  with Cons.prems have "wf_active k (h ! a)" by simp
  from should_advance_order_active [OF this, of t]
  obtain b where b: "should_advance_order (h ! a) t = Inr b" by blast
  from Cons have "scan_due h reg t =
      Inr (map fst (filter (\<lambda>(k, a). should_advance_order (h ! a) t = Inr True) reg))" by simp
  with p b show ?case by simp
qed

lemma reg_after_delete:
  assumes "r' = r \<or> r' = AList.delete k r" and "k' \<noteq> k"
  shows "(k', a') \<in> set r' \<longleftrightarrow> (k', a') \<in> set r"
  using assms by (auto simp: AList.delete_eq)

lemma reg_addr_inj:
  assumes "distinct (map snd r)" and "(k, a) \<in> set r" and "(k', a) \<in> set r"
  shows "k' = k"
proof -
  from assms(1) have "inj_on snd (set r)" by (simp add: distinct_map)
  from inj_onD [OF this, of "(k, a)" "(k', a)"] assms(2,3) show ?thesis by simp
qed

lemma order_step_status:
  assumes "order_step order order'"
  shows "\<exists>st'. map_of order' ''status'' = Some st' \<and>
           st' \<in> set [VStr ''confirmed'', VStr ''processing'', VStr ''shipped'', VStr ''cancelled'']"
proof -
  obtain st st' where "map_of order ''status'' = Some st" and s': "map_of order' ''status'' = Some st'"
    and "lifecycle_step st st'"
    using assms
    by (cases "map_of order ''status''"; cases "map_of order' ''status''")
      (simp_all add: order_step_def)
  then have "st' \<in> set [VStr ''confirmed'', VStr ''processing'', VStr ''shipped'', VStr ''cancelled'']"
    unfolding lifecycle_step_def by auto
  with s' show ?thesis by blast
qed

lemma update_order_spec:
  assumes "state_inv s" and "(k, a) \<in> set (active_orders s)"
  shows "\<exists>s' order' ks cs. update_order p kp t k s = Inr s' \<and> state_inv s' \<and>
           heap s' = (heap s)[a := order'] \<and> order_step (heap s ! a) order' \<and>
           kafka_out s' = kafka_out s @ ks \<and> console_out s' = console_out s @ cs \<and>
           (\<forall>m \<in> set ks. msg_obj m = a) \<and> (\<forall>(b, e) \<in> set cs. b = a) \<and>
           (active_orders s' = active_orders s \<or>
            active_orders s' = AList.delete k (active_orders s)) \<and>
           start_time s' = start_time s"
proof -
  from assms(1) have inv: "distinct (map fst (active_orders s))"
    "distinct (map snd (active_orders s))"
    "\<forall>(k, a) \<in> set (active_orders s). a < length (heap s) \<and> wf_active k (heap s ! a)"
    "\<forall>order \<in> set (heap s). wf_order order"
    "\<forall>(a, e) \<in> set (console_out s). log_ok (length (heap s)) a e"
    "\<forall>m \<in> set (kafka_out s). log_ok (length (heap s)) (msg_obj m) (msg_value m)"
    by (auto simp: state_inv_def)
  from inv(3) assms(2) have a: "a < length (heap s)" and wfa: "wf_active k (heap s ! a)" by auto
  then have hk: "hashable k" by (simp add: wf_active_def)
  have look: "map_of (active_orders s) k = Some a" using inv(1) assms(2) by simp
  from advance_order_status_spec [OF wfa, of t "env s"] obtain order' w1 where
    adv: "advance_order_status (heap s ! a) t (env s) = Inr (order', w1)"
    and wfo: "wf_order order'" and step: "order_step (heap s ! a) order'"
    and oid: "map_of order' ''order_id'' = Some k"
    and act: "(\<exists>st \<in> set active_statuses. map_of order' ''status'' = Some st) \<longrightarrow>
                wf_active k order'"
    by blast
  let ?s1 = "s\<lparr>env := w1, heap := (heap s)[a := order']\<rparr>"
  from dispatch_spec [OF oid, of p kp "''WARNING: Failed to send status update for''" a
      "output_fields order'" ?s1]
  obtain w2 ks ws cs where
    d: "dispatch p kp ''WARNING: Failed to send status update for'' a order'
          (output_fields order') ?s1 =
          Inr (?s1\<lparr>env := w2, kafka_out := kafka_out ?s1 @ ks, warnings := warnings ?s1 @ ws,
                   console_out := console_out ?s1 @ cs\<rparr>)"
    and ks: "\<forall>m \<in> set ks. msg_obj m = a \<and> msg_value m = output_fields order'"
    and cs: "\<forall>(b, e) \<in> set cs. b = a \<and> e = output_fields order'"
    by (elim exE conjE) (rule that)
  let ?s2 = "?s1\<lparr>env := w2, kafka_out := kafka_out ?s1 @ ks, warnings := warnings ?s1 @ ws,
                 console_out := console_out ?s1 @ cs\<rparr>"
  let ?s3 = "?s2\<lparr>status_updates_count := status_updates_count ?s2 + 1\<rparr>"
  from order_step_status [OF step] obtain st' where st': "map_of order' ''status'' = Some st'"
    and st'4: "st' \<in> set [VStr ''confirmed'', VStr ''processing'', VStr ''shipped'',
      VStr ''cancelled'']"
    by (elim exE conjE) (rule that)
  let ?final = "st' = VStr ''shipped'' \<or> st' = VStr ''cancelled''"
  let ?reg = "if ?final then AList.delete k (active_orders s) else active_orders s"
  let ?s4 = "?s3\<lparr>active_orders := ?reg,
                  shipped_orders_count := shipped_orders_count s +
                    (if st' = VStr ''shipped'' then 1 else 0),
                  cancelled_orders_count := cancelled_orders_count s +
                    (if st' = VStr ''cancelled'' then 1 else 0)\<rparr>"
  have eq: "update_order p kp t k s = Inr ?s4"
    using hk look adv d st'
    by (simp add: update_order_def table_get_def subscript_def Let_def)
  have new_ok: "log_ok (length (heap s)) a (output_fields order')"
    using a output_fields_payload [OF wfo] by (simp add: log_ok_def)
  have i1: "distinct (map fst ?reg)" using inv(1) by (simp add: distinct_delete)
  have i2: "distinct (map snd ?reg)" using inv(2) by (simp add: distinct_snd_delete)
  have i3: "\<forall>(k', a') \<in> set ?reg. a' < length (heap ?s4) \<and> wf_active k' (heap ?s4 ! a')"
  proof (clarify)
    fix k' a' assume mem: "(k', a') \<in> set ?reg"
    then have mem0: "(k', a') \<in> set (active_orders s)"
      using set_delete_subset [of k "active_orders s"] by (auto split: if_splits)
    with inv(3) have a': "a' < length (heap s)" and wf': "wf_active k' (heap s ! a')" by auto
    show "a' < length (heap ?s4) \<and> wf_active k' (heap ?s4 ! a')"
    proof (cases "a' = a")
      case True
      with mem0 assms(2) inv(2) have kk: "k' = k" by (metis reg_addr_inj)
      with mem have nt: "\<not> ?final"
        using delete_notin_dom [of k "active_orders s"] by (auto split: if_splits simp: image_iff)
      with st' st'4 have "\<exists>st \<in> set active_statuses. map_of order' ''status'' = Some st"
        by (auto simp: active_statuses_def)
      with act have "wf_active k order'" by blast
      with True kk a show ?thesis by simp
    next
      case False
      with a' wf' show ?thesis by simp
    qed
  qed
  have i4: "\<forall>order \<in> set (heap ?s4). wf_order order"
    using inv(4) wfo by (auto dest!: set_update_subset_insert [THEN subsetD])
  have i5: "\<forall>(b, e) \<in> set (console_out ?s4). log_ok (length (heap ?s4)) b e"
    using inv(5) cs new_ok by fastforce
  have i6: "\<forall>m \<in> set (kafka_out ?s4). log_ok (length (heap ?s4)) (msg_obj m) (msg_value m)"
    using inv(6) ks new_ok by fastforce
  have sinv: "state_inv ?s4"
    unfolding state_inv_def using i1 i2 i3 i4 i5 i6 by simp
  show ?thesis
    apply (intro exI [of _ ?s4] exI [of _ order'] exI [of _ ks] exI [of _ cs])
    using eq sinv step ks cs by auto
qed

lemma addrs_of_iff: "b \<in> set (addrs_of reg ids) \<longleftrightarrow> (\<exists>k \<in> set ids. (k, b) \<in> set reg)"
  by (auto simp: addrs_of_def image_iff)

lemma update_orders_spec:
  assumes "state_inv s" and "distinct ids" and "set ids \<subseteq> fst ` set (active_orders s)"
  shows "\<exists>s' ks cs. update_orders p kp t ids s = Inr s' \<and> state_inv s' \<and>
           length (heap s') = length (heap s) \<and>
           (\<forall>b < length (heap s).
              if b \<in> set (addrs_of (active_orders s) ids)
              then order_step (heap s ! b) (heap s' ! b)
              else heap s' ! b = heap s ! b) \<and>
           kafka_out s' = kafka_out s @ ks \<and> console_out s' = console_out s @ cs \<and>
           (\<forall>m \<in> set ks. msg_obj m \<in> set (addrs_of (active_orders s) ids)) \<and>
           (\<forall>(b, e) \<in> set cs. b \<in> set (addrs_of (active_orders s) ids)) \<and>
           set (active_orders s') \<subseteq> set (active_orders s) \<and>
           start_time s' = start_time s"
  using assms
proof (induction ids arbitrary: s)
  case Nil
  then show ?case by (simp add: addrs_of_def)
next
  case (Cons k rest)
  let ?reg = "active_orders s"
  from Cons.prems(3) obtain a where ka: "(k, a) \<in> set ?reg" by force
  from Cons.prems(1) have dk: "distinct (map fst ?reg)" and ds: "distinct (map snd ?reg)"
    and bound: "a < length (heap s)"
    using ka by (auto simp: state_inv_def)
  from update_order_spec [OF Cons.prems(1) ka, of p kp t]
  obtain s1 order' ks0 cs0 where
    u: "update_order p kp t k s = Inr s1" and inv1: "state_inv s1"
    and h1: "heap s1 = (heap s)[a := order']" and st1: "order_step (heap s ! a) order'"
    and k1: "kafka_out s1 = kafka_out s @ ks0" and c1: "console_out s1 = console_out s @ cs0"
    and kt: "\<forall>m \<in> set ks0. msg_obj m = a" and ct: "\<forall>(b, e) \<in> set cs0. b = a"
    and r1: "active_orders s1 = ?reg \<or> active_orders s1 = AList.delete k ?reg"
    and t1: "start_time s1 = start_time s"
    by (elim exE conjE) (rule that)
  from Cons.prems(2) have knot: "k \<notin> set rest" and drest: "distinct rest" by auto
  have same: "(k', b) \<in> set (active_orders s1) \<longleftrightarrow> (k', b) \<in> set ?reg"
    if "k' \<in> set rest" for k' b
  proof -
    from that knot have "k' \<noteq> k" by auto
    then show ?thesis by (rule reg_after_delete [OF r1])
  qed
  have sub1: "set rest \<subseteq> fst ` set (active_orders s1)"
  proof
    fix k' assume k': "k' \<in> set rest"
    with Cons.prems(3) obtain b where "(k', b) \<in> set ?reg" by force
    with same [OF k'] have "(k', b) \<in> set (active_orders s1)" by simp
    then show "k' \<in> fst ` set (active_orders s1)" by force
  qed
  have A1: "\<And>b. b \<in> set (addrs_of (active_orders s1) rest) \<longleftrightarrow> b \<in> set (addrs_of ?reg rest)"
    unfolding addrs_of_iff using same by blast
  have A: "\<And>b. b \<in> set (addrs_of ?reg (k # rest)) \<longleftrightarrow> b = a \<or> b \<in> set (addrs_of ?reg rest)"
  proof -
    fix b
    have "(k, b) \<in> set ?reg \<longleftrightarrow> b = a"
      using dk ka by (metis map_of_is_SomeI option.inject)
    then show "b \<in> set (addrs_of ?reg (k # rest)) \<longleftrightarrow> b = a \<or> b \<in> set (addrs_of ?reg rest)"
      unfolding addrs_of_iff by auto
  qed
  have anot: "a \<notin> set (addrs_of ?reg rest)"
    unfolding addrs_of_iff using reg_addr_inj [OF ds ka] knot by blast
  from Cons.IH [OF inv1 drest sub1]
  obtain s' ks cs where
    r: "update_orders p kp t rest s1 = Inr s'" and inv': "state_inv s'"
    and len: "length (heap s') = length (heap s1)"
    and frame: "\<forall>b < length (heap s1).
              if b \<in> set (addrs_of (active_orders s1) rest)
              then order_step (heap s1 ! b) (heap s' ! b)
              else heap s' ! b = heap s1 ! b"
    and k2: "kafka_out s' = kafka_out s1 @ ks" and c2: "console_out s' = console_out s1 @ cs"
    and kt2: "\<forall>m \<in> set ks. msg_obj m \<in> set (addrs_of (active_orders s1) rest)"
    and ct2: "\<forall>(b, e) \<in> set cs. b \<in> set (addrs_of (active_orders s1) rest)"
    and r2: "set (active_orders s') \<subseteq> set (active_orders s1)"
    and t2: "start_time s' = start_time s1"
    by (elim exE conjE) (rule that)
  have eq: "update_orders p kp t (k # rest) s = Inr s'" using u r by simp
  have len': "length (heap s') = length (heap s)" using len h1 by simp
  have frame': "\<forall>b < length (heap s).
              if b \<in> set (addrs_of ?reg (k # rest))
              then order_step (heap s ! b) (heap s' ! b)
              else heap s' ! b = heap s ! b"
  proof (intro allI impI)
    fix b assume b: "b < length (heap s)"
    then have b1: "b < length (heap s1)" using h1 by simp
    show "if b \<in> set (addrs_of ?reg (k # rest))
              then order_step (heap s ! b) (heap s' ! b)
              else heap s' ! b = heap s ! b"
    proof (cases "b = a")
      case True
      with frame b1 anot A1 have "heap s' ! a = heap s1 ! a" by auto
      with h1 bound have "heap s' ! a = order'" by simp
      with st1 True A show ?thesis by simp
    next
      case False
      then have hb: "heap s1 ! b = heap s ! b" using h1 by simp
      from frame b1 have fr: "if b \<in> set (addrs_of (active_orders s1) rest)
              then order_step (heap s1 ! b) (heap s' ! b)
              else heap s' ! b = heap s1 ! b" by blast
      show ?thesis
      proof (cases "b \<in> set (addrs_of ?reg rest)")
        case True
        with fr A1 have "order_step (heap s1 ! b) (heap s' ! b)" by simp
        with hb True A show ?thesis by simp
      next
        case nin: False
        with fr A1 have "heap s' ! b = heap s1 ! b" by simp
        with hb nin False A show ?thesis by simp
      qed
    qed
  qed
  have kall: "\<forall>m \<in> set (ks0 @ ks). msg_obj m \<in> set (addrs_of ?reg (k # rest))"
    using kt kt2 A A1 by auto
  have call: "\<forall>(b, e) \<in> set (cs0 @ cs). b \<in> set (addrs_of ?reg (k # rest))"
    using ct ct2 A A1 by fastforce
  have rsub: "set (active_orders s') \<subseteq> set ?reg"
  proof -
    have "set (active_orders s1) \<subseteq> set ?reg"
      using r1 set_delete_subset [of k ?reg] by (elim disjE) simp_all
    with r2 show ?thesis by (rule subset_trans)
  qed
  show ?case
    apply (intro exI [of _ s'] exI [of _ "ks0 @ ks"] exI [of _ "cs0 @ cs"])
    using eq inv' len' frame' kall call rsub k1 k2 c1 c2 t1 t2 by simp
qed

lemma addrs_of_due:
  assumes "distinct (map fst reg)"
  shows "b \<in> set (addrs_of reg (map fst (filter (\<lambda>(k, a). P a) reg))) \<longleftrightarrow>
           (\<exists>k. (k, b) \<in> set reg \<and> P b)"
proof
  assume "b \<in> set (addrs_of reg (map fst (filter (\<lambda>(k, a). P a) reg)))"
  then obtain k a where kb: "(k, b) \<in> set reg" and ka: "(k, a) \<in> set reg" and pa: "P a"
    unfolding addrs_of_iff by auto
  from assms kb ka have "a = b" by (metis map_of_is_SomeI option.inject)
  with kb pa show "\<exists>k. (k, b) \<in> set reg \<and> P b" by blast
next
  assume "\<exists>k. (k, b) \<in> set reg \<and> P b"
  then show "b \<in> set (addrs_of reg (map fst (filter (\<lambda>(k, a). P a) reg)))"
    unfolding addrs_of_iff by force
qed

lemma loop_body_spec:
  assumes "state_inv s"
  shows "\<exists>s'. loop_body p kp t s = Inr s' \<and> state_inv s' \<and>
           length (heap s) \<le> length (heap s') \<and>
           (\<forall>b < length (heap s).
              heap s' ! b = heap s ! b \<or> order_step (heap s ! b) (heap s' ! b)) \<and>
           (\<forall>b. length (heap s) \<le> b \<longrightarrow> b < length (heap s') \<longrightarrow>
              map_of (heap s' ! b) ''status'' = Some (VStr ''pending'')) \<and>
           (\<forall>b < length (heap s). should_advance_order (heap s ! b) t \<noteq> Inr True \<longrightarrow>
              heap s' ! b = heap s ! b \<and>
              b \<notin> fst ` set (drop (length (console_out s)) (console_out s')) \<and>
              b \<notin> msg_obj ` set (drop (length (kafka_out s)) (kafka_out s'))) \<and>
           start_time s' = start_time s \<and>
           (\<exists>cs. console_out s' = console_out s @ cs) \<and>
           (\<exists>ks. kafka_out s' = kafka_out s @ ks)"
proof -
  from admit_order_spec [OF assms, of p kp t]
  obtain s1 new ks1 cs1 where
    ad: "admit_order p kp t s = Inr s1" and inv1: "state_inv s1"
    and h1: "heap s1 = heap s @ new"
    and new: "\<forall>order \<in> set new. map_of order ''status'' = Some (VStr ''pending'') \<and>
              should_advance_order order t = Inr False"
    and k1: "kafka_out s1 = kafka_out s @ ks1" and c1: "console_out s1 = console_out s @ cs1"
    and kt1: "\<forall>m \<in> set ks1. msg_obj m = length (heap s)"
    and ct1: "\<forall>(b, e) \<in> set cs1. b = length (heap s)"
    and t1: "start_time s1 = start_time s"
    by (elim exE conjE) (rule that)
  let ?reg = "active_orders s1"
  let ?due = "\<lambda>a. should_advance_order (heap s1 ! a) t = Inr True"
  let ?ids = "map fst (filter (\<lambda>(k, a). ?due a) ?reg)"
  from inv1 have dk: "distinct (map fst ?reg)"
    and wf: "\<forall>(k, a) \<in> set ?reg. wf_active k (heap s1 ! a)"
    by (auto simp: state_inv_def)
  have sc: "scan_due (heap s1) ?reg t = Inr ?ids" using wf by (rule scan_due_spec)
  have dids: "distinct ?ids" using dk by (rule distinct_map_filter)
  have sub: "set ?ids \<subseteq> fst ` set ?reg" by auto
  from update_orders_spec [OF inv1 dids sub, of p kp t]
  obtain s' ks2 cs2 where
    up: "update_orders p kp t ?ids s1 = Inr s'" and inv': "state_inv s'"
    and len: "length (heap s') = length (heap s1)"
    and frame: "\<forall>b < length (heap s1).
              if b \<in> set (addrs_of ?reg ?ids)
              then order_step (heap s1 ! b) (heap s' ! b)
              else heap s' ! b = heap s1 ! b"
    and k2: "kafka_out s' = kafka_out s1 @ ks2" and c2: "console_out s' = console_out s1 @ cs2"
    and kt2: "\<forall>m \<in> set ks2. msg_obj m \<in> set (addrs_of ?reg ?ids)"
    and ct2: "\<forall>(b, e) \<in> set cs2. b \<in> set (addrs_of ?reg ?ids)"
    and t2: "start_time s' = start_time s1"
    by (elim exE conjE) (rule that)
  have eq: "loop_body p kp t s = Inr s'" using ad sc up by (simp add: loop_body_def)
  have due: "?due b" if "b \<in> set (addrs_of ?reg ?ids)" for b
  proof -
    from that addrs_of_due [OF dk, of b ?due] have "\<exists>k. (k, b) \<in> set ?reg \<and> ?due b"
      by (simp add: case_prod_unfold)
    then show ?thesis by (elim exE conjE)
  qed
  have old: "\<And>b. b < length (heap s) \<Longrightarrow> heap s1 ! b = heap s ! b"
    using h1 by (simp add: nth_append)
  have lens: "length (heap s) \<le> length (heap s')" using len h1 by simp
  have c: "\<forall>b < length (heap s).
              heap s' ! b = heap s ! b \<or> order_step (heap s ! b) (heap s' ! b)"
  proof (intro allI impI)
    fix b assume b: "b < length (heap s)"
    then have "b < length (heap s1)" using h1 by simp
    with frame have "if b \<in> set (addrs_of ?reg ?ids)
              then order_step (heap s1 ! b) (heap s' ! b)
              else heap s' ! b = heap s1 ! b" by blast
    then show "heap s' ! b = heap s ! b \<or> order_step (heap s ! b) (heap s' ! b)"
      using old [OF b] by (cases "b \<in> set (addrs_of ?reg ?ids)") simp_all
  qed
  have d: "\<forall>b. length (heap s) \<le> b \<longrightarrow> b < length (heap s') \<longrightarrow>
              map_of (heap s' ! b) ''status'' = Some (VStr ''pending'')"
  proof (intro allI impI)
    fix b assume lo: "length (heap s) \<le> b" and hi: "b < length (heap s')"
    then have b1: "b < length (heap s1)" using len by simp
    with lo h1 have mem: "heap s1 ! b \<in> set new" by (simp add: nth_append)
    from bspec [OF new mem] have pend: "map_of (heap s1 ! b) ''status'' = Some (VStr ''pending'')"
      and nd: "should_advance_order (heap s1 ! b) t = Inr False" by simp_all
    have notin: "b \<notin> set (addrs_of ?reg ?ids)"
    proof
      assume "b \<in> set (addrs_of ?reg ?ids)"
      from due [OF this] nd show False by simp
    qed
    from frame b1 have "if b \<in> set (addrs_of ?reg ?ids)
              then order_step (heap s1 ! b) (heap s' ! b)
              else heap s' ! b = heap s1 ! b" by blast
    with notin have "heap s' ! b = heap s1 ! b" by simp
    with pend show "map_of (heap s' ! b) ''status'' = Some (VStr ''pending'')" by simp
  qed
  have e: "\<forall>b < length (heap s). should_advance_order (heap s ! b) t \<noteq> Inr True \<longrightarrow>
              heap s' ! b = heap s ! b \<and>
              b \<notin> fst ` set (drop (length (console_out s)) (console_out s')) \<and>
              b \<notin> msg_obj ` set (drop (length (kafka_out s)) (kafka_out s'))"
  proof (intro allI impI)
    fix b assume b: "b < length (heap s)"
      and nd: "should_advance_order (heap s ! b) t \<noteq> Inr True"
    from b have b1: "b < length (heap s1)" using h1 by simp
    have notin: "b \<notin> set (addrs_of ?reg ?ids)"
    proof
      assume "b \<in> set (addrs_of ?reg ?ids)"
      from due [OF this] nd old [OF b] show False by simp
    qed
    from frame b1 have "if b \<in> set (addrs_of ?reg ?ids)
              then order_step (heap s1 ! b) (heap s' ! b)
              else heap s' ! b = heap s1 ! b" by blast
    with notin old [OF b] have same: "heap s' ! b = heap s ! b" by simp
    have cdrop: "drop (length (console_out s)) (console_out s') = cs1 @ cs2"
      using c1 c2 by simp
    have kdrop: "drop (length (kafka_out s)) (kafka_out s') = ks1 @ ks2"
      using k1 k2 by simp
    have "b \<notin> fst ` set (cs1 @ cs2)"
    proof
      assume "b \<in> fst ` set (cs1 @ cs2)"
      then obtain e where "(b, e) \<in> set cs1 \<or> (b, e) \<in> set cs2" by force
      then show False
      proof
        assume "(b, e) \<in> set cs1"
        from bspec [OF ct1 this] b show False by simp
      next
        assume "(b, e) \<in> set cs2"
        from bspec [OF ct2 this] notin show False by simp
      qed
    qed
    moreover have "b \<notin> msg_obj ` set (ks1 @ ks2)"
    proof
      assume "b \<in> msg_obj ` set (ks1 @ ks2)"
      then obtain m where m: "msg_obj m = b" "m \<in> set ks1 \<or> m \<in> set ks2" by force
      from m(2) show False
      proof
        assume "m \<in> set ks1"
        from bspec [OF kt1 this] m(1) b show False by simp
      next
        assume "m \<in> set ks2"
        from bspec [OF kt2 this] m(1) notin show False by simp
      qed
    qed
    ultimately show "heap s' ! b = heap s ! b \<and>
              b \<notin> fst ` set (drop (length (console_out s)) (console_out s')) \<and>
              b \<notin> msg_obj ` set (drop (length (kafka_out s)) (kafka_out s'))"
      using same cdrop kdrop by simp
  qed
  have tt: "start_time s' = start_time s" using t1 t2 by simp
  have cpre: "\<exists>cs. console_out s' = console_out s @ cs" using c1 c2 by simp
  have kpre: "\<exists>ks. kafka_out s' = kafka_out s @ ks" using k1 k2 by simp
  show ?thesis
    by (rule exI [of _ s']) (intro conjI eq inv' lens c d e tt cpre kpre)
qed

section \<open>The event loop\<close>

lemma initial_state_inv: "state_inv (initial_state p w ck)"
  by (simp add: initial_state_def state_inv_def split: prod.splits)

lemma event_loop_spec:
  assumes "state_inv s"
  shows "\<exists>s'. event_loop p kp ts s = Inr s' \<and> state_inv s' \<and> start_time s' = start_time s"
  using assms
proof (induction ts arbitrary: s)
  case Nil
  then show ?case by simp
next
  case (Cons t ts)
  show ?case
  proof (cases "t - start_time s \<ge> real_of_int (duration_minutes p * 60)")
    case True
    with Cons.prems show ?thesis by (simp add: Let_def)
  next
    case False
    from loop_body_spec [OF Cons.prems, of p kp t]
    obtain s1 where lb: "loop_body p kp t s = Inr s1" and inv1: "state_inv s1"
      and t1: "start_time s1 = start_time s"
      by (elim exE conjE) (rule that)
    from Cons.IH [OF inv1] obtain s' where "event_loop p kp ts s1 = Inr s'" "state_inv s'"
      "start_time s' = start_time s1"
      by (elim exE conjE) (rule that)
    with False lb t1 show ?thesis by (simp add: Let_def)
  qed
qed



lemmas draw_defs = next_raw_def next_fake_def utcnow_isoformat_def next_ack_def random_random_def
  random_uniform_def random_randint_def random_choice_def

lemmas eval_defs = generate_sale_def draw_defs PRODUCTS_def PAYMENT_METHODS_def
  generate_order_id_def generate_customer_id_def generate_address_def Let_def
  round2_def round_half_even_def str_int_def str_nat.simps digit_char_def
  initial_state_def admit_order_def loop_body_def update_order_def dispatch_def
  send_to_kafka_def output_fields_def subscript_def table_get_def table_contains_def
  STATUS_TRANSITION_TIMES_def CANCELLATION_REASONS_def CANCELLATION_PROBABILITY_def
  should_advance_order_def advance_order_status_def should_cancel_order_def cancel_order_def
  get_next_status_def ORDER_STATUS_FLOW_def const_world_def

section \<open>Concrete sessions, evaluated\<close>

lemma advance_session1:
  "event_loop advance_params True [31] (initial_state advance_params advance_world advance_clock)
     = Inr advance_state1"
  by (simp add: advance_params_def advance_world_def advance_clock_def advance_state1_def
      sale_at_def sale_message_def eval_defs)

lemma advance_session2:
  "loop_body advance_params True 51 advance_state1 = Inr advance_state2"
  by (simp add: advance_params_def advance_world_def advance_state1_def advance_state2_def
      sale_at_def sale_message_def eval_defs)

lemma reached_inv:
  assumes "event_loop p kp ts (initial_state p w ck) = Inr s"
  shows "state_inv s"
proof -
  from event_loop_spec [where s = "initial_state p w ck" and p = p and kp = kp and ts = ts,
      OF initial_state_inv]
  obtain s0 where "event_loop p kp ts (initial_state p w ck) = Inr s0" and "state_inv s0"
    by (elim exE conjE) (rule that)
  with assms show ?thesis by simp
qed

lemma order_step_status_step: "order_step order order' \<Longrightarrow> status_step order order'"
  by (cases "map_of order ''status''"; cases "map_of order' ''status''")
    (simp_all add: order_step_def status_step_def)

lemma wf_order_status_step: "wf_order order \<Longrightarrow> status_step order order"
  by (auto simp: wf_order_def status_step_def)

lemma not_due_not_True:
  assumes "map_of order ''last_status_change'' = Some (VFloat x)"
    and "map_of order ''transition_time'' = Some (VFloat y)"
    and "t - x < y"
  shows "should_advance_order order t \<noteq> Inr True"
proof (cases "map_of order ''status''")
  case None
  then show ?thesis by (simp add: should_advance_order_def subscript_def)
next
  case (Some st)
  show ?thesis
  proof (cases "table_get STATUS_TRANSITION_TIMES st")
    case (Inl e)
    with Some assms show ?thesis by (simp add: should_advance_order_def subscript_def)
  next
    case (Inr v)
    with Some assms show ?thesis
      by (cases v) (simp add: should_advance_order_def subscript_def)
  qed
qed

lemma event_loop_not_due:
  assumes "state_inv s" and "a < length (heap s)"
    and "map_of (heap s ! a) ''last_status_change'' = Some (VFloat x)"
    and "map_of (heap s ! a) ''transition_time'' = Some (VFloat y)"
    and "\<forall>t \<in> set later. t - x < y"
    and "event_loop p kp later s = Inr s'"
  shows "heap s' ! a = heap s ! a \<and>
         (\<exists>cs ks. console_out s' = console_out s @ cs \<and> kafka_out s' = kafka_out s @ ks \<and>
            a \<notin> fst ` set cs \<and> a \<notin> msg_obj ` set ks)"
  using assms
proof (induction later arbitrary: s)
  case Nil
  then show ?case by simp
next
  case (Cons t later)
  show ?case
  proof (cases "t - start_time s \<ge> real_of_int (duration_minutes p * 60)")
    case True
    with Cons.prems(6) have "s' = s" by (simp add: Let_def)
    then show ?thesis by simp
  next
    case False
    from Cons.prems(5) have tx: "t - x < y" and rest: "\<forall>t \<in> set later. t - x < y" by simp_all
    have nd: "should_advance_order (heap s ! a) t \<noteq> Inr True"
      using Cons.prems(3,4) tx by (rule not_due_not_True)
    from loop_body_spec [OF Cons.prems(1), of p kp t]
    obtain s1 cs1 ks1 where lb: "loop_body p kp t s = Inr s1" and inv1: "state_inv s1"
      and len: "length (heap s) \<le> length (heap s1)"
      and e: "\<forall>b < length (heap s). should_advance_order (heap s ! b) t \<noteq> Inr True \<longrightarrow>
              heap s1 ! b = heap s ! b \<and>
              b \<notin> fst ` set (drop (length (console_out s)) (console_out s1)) \<and>
              b \<notin> msg_obj ` set (drop (length (kafka_out s)) (kafka_out s1))"
      and c1: "console_out s1 = console_out s @ cs1" and k1: "kafka_out s1 = kafka_out s @ ks1"
      by (elim exE conjE) (rule that)
    from e Cons.prems(2) nd have same: "heap s1 ! a = heap s ! a"
      and nc: "a \<notin> fst ` set (drop (length (console_out s)) (console_out s1))"
      and nk: "a \<notin> msg_obj ` set (drop (length (kafka_out s)) (kafka_out s1))"
      by blast+
    from nc c1 have nc1: "a \<notin> fst ` set cs1" by simp
    from nk k1 have nk1: "a \<notin> msg_obj ` set ks1" by simp
    from Cons.prems(6) False lb have ev: "event_loop p kp later s1 = Inr s'"
      by (simp add: Let_def)
    have a1: "a < length (heap s1)" using Cons.prems(2) len by simp
    have x1: "map_of (heap s1 ! a) ''last_status_change'' = Some (VFloat x)"
      using Cons.prems(3) same by simp
    have y1: "map_of (heap s1 ! a) ''transition_time'' = Some (VFloat y)"
      using Cons.prems(4) same by simp
    from Cons.IH [OF inv1 a1 x1 y1 rest ev]
    obtain cs2 ks2 where same2: "heap s' ! a = heap s1 ! a"
      and c2: "console_out s' = console_out s1 @ cs2" and k2: "kafka_out s' = kafka_out s1 @ ks2"
      and nc2: "a \<notin> fst ` set cs2" and nk2: "a \<notin> msg_obj ` set ks2"
      by (elim exE conjE) (rule that)
    have c: "console_out s' = console_out s @ (cs1 @ cs2)" using c1 c2 by simp
    have k: "kafka_out s' = kafka_out s @ (ks1 @ ks2)" using k1 k2 by simp
    have nc3: "a \<notin> fst ` set (cs1 @ cs2)" using nc1 nc2 by auto
    have nk3: "a \<notin> msg_obj ` set (ks1 @ ks2)" using nk1 nk2 by auto
    have h: "heap s' ! a = heap s ! a" using same same2 by simp
    show ?thesis
      by (intro conjI h exI [of _ "cs1 @ cs2"] exI [of _ "ks1 @ ks2"] c k nc3 nk3)
  qed
qed

lemma advance_session_idle:
  "event_loop advance_params True [40, 45] advance_state1 = Inr advance_state1"
  by (simp add: advance_params_def advance_world_def advance_state1_def
      sale_at_def sale_message_def eval_defs)

lemma wf_active_lookups: "wf_active k order \<Longrightarrow> lookups_succeed order"
  by (auto simp: wf_active_def lookups_succeed_def active_statuses_def
      get_next_status_active table_get_times)

lemma advance_calls_active:
  assumes "state_inv s" and "distinct ids" and "set ids \<subseteq> fst ` set (active_orders s)"
  shows "\<forall>order \<in> set (advance_calls p kp t ids s). lookups_succeed order"
  using assms
proof (induction ids arbitrary: s)
  case Nil
  then show ?case by simp
next
  case (Cons k rest)
  let ?reg = "active_orders s"
  from Cons.prems(3) obtain a where ka: "(k, a) \<in> set ?reg" by force
  from Cons.prems(1) have dk: "distinct (map fst ?reg)"
    and wfa: "wf_active k (heap s ! a)"
    using ka by (auto simp: state_inv_def)
  from wfa have hk: "hashable k" by (simp add: wf_active_def)
  have look: "table_get ?reg k = Inr a" using dk ka hk by (simp add: table_get_def)
  from update_order_spec [OF Cons.prems(1) ka, of p kp t]
  obtain s1 where u: "update_order p kp t k s = Inr s1" and inv1: "state_inv s1"
    and r1: "active_orders s1 = ?reg \<or> active_orders s1 = AList.delete k ?reg"
    by (elim exE conjE) (rule that)
  from Cons.prems(2) have knot: "k \<notin> set rest" and drest: "distinct rest" by auto
  have sub1: "set rest \<subseteq> fst ` set (active_orders s1)"
  proof
    fix k' assume k': "k' \<in> set rest"
    with Cons.prems(3) obtain b where b: "(k', b) \<in> set ?reg" by force
    from k' knot have "k' \<noteq> k" by auto
    from reg_after_delete [OF r1 this, of b] b have "(k', b) \<in> set (active_orders s1)" by simp
    then show "k' \<in> fst ` set (active_orders s1)" by force
  qed
  from Cons.IH [OF inv1 drest sub1]
  have rest: "\<forall>order \<in> set (advance_calls p kp t rest s1). lookups_succeed order" .
  have calls: "advance_calls p kp t (k # rest) s = (heap s ! a) # advance_calls p kp t rest s1"
    using look u by simp
  from wfa have "lookups_succeed (heap s ! a)" by (rule wf_active_lookups)
  with rest show ?case unfolding calls by simp
qed

lemma tick_calls_active:
  assumes "state_inv s"
  shows "\<forall>order \<in> set (tick_calls p kp t s). lookups_succeed order"
proof -
  from admit_order_spec [OF assms, of p kp t]
  obtain s1 where ad: "admit_order p kp t s = Inr s1" and inv1: "state_inv s1"
    by (elim exE conjE) (rule that)
  let ?reg = "active_orders s1"
  let ?ids = "map fst (filter (\<lambda>(k, a). should_advance_order (heap s1 ! a) t = Inr True) ?reg)"
  from inv1 have dk: "distinct (map fst ?reg)"
    and wf: "\<forall>(k, a) \<in> set ?reg. wf_active k (heap s1 ! a)"
    by (auto simp: state_inv_def)
  have sc: "scan_due (heap s1) ?reg t = Inr ?ids" using wf by (rule scan_due_spec)
  have dids: "distinct ?ids" using dk by (rule distinct_map_filter)
  have sub: "set ?ids \<subseteq> fst ` set ?reg" by auto
  have "tick_calls p kp t s = advance_calls p kp t ?ids s1"
    using ad sc by (simp add: tick_calls_def)
  with advance_calls_active [OF inv1 dids sub, of p kp t] show ?thesis by simp
qed

lemma advance_cancelled_raises:
  "map_of order ''status'' = Some (VStr ''cancelled'') \<Longrightarrow>
   advance_order_status order t w = Inl ValueError"
  by (simp add: advance_order_status_def subscript_def should_cancel_order_def
      get_next_status_active)

lemma advance_calls1:
  "tick_calls advance_params True 51 advance_state1 = [sale_at ''pending'' 31 20]"
  by (simp add: tick_calls_def advance_params_def advance_world_def advance_state1_def
      sale_at_def sale_message_def eval_defs)

lemma cancel_session1:
  "event_loop cancel_params False [100] (initial_state cancel_params (const_world False 0) cancel_clock)
     = Inr cancel_state1"
  by (simp add: cancel_params_def cancel_clock_def cancel_state1_def headphones_sale_def eval_defs)

lemma cancel_session2:
  "loop_body cancel_params False 110 cancel_state1 = Inr cancel_state2"
  by (simp add: cancel_params_def cancel_state1_def cancel_state2_def cancelled_sale_def
      headphones_sale_def eval_defs)

lemma collision_session:
  "event_loop collision_params False (tick_times collision_clock)
     (initial_state collision_params (const_world False 0) collision_clock) = Inr collision_state"
  by (simp add: collision_params_def collision_clock_def collision_state_def cancelled_sale_def
      headphones_sale_def eval_defs)

lemma collision_run:
  "run_generator collision_params (const_world False 0) collision_clock =
     Inr (collision_state,
          \<lparr>total_new_orders = 2, total_status_updates = 1, total_shipped = 0,
           total_cancelled = 1, still_active = 0, success_rate = 0, cancellation_rate = 50,
           elapsed_seconds = 61, average_rate = 120 / 61\<rparr>)"
  using collision_session
  by (simp add: run_generator_def final_report_def py_div_def collision_params_def
      collision_clock_def collision_state_def)

lemma zero_duration_loop:
  "event_loop zero_duration_params False (tick_times coarse_clock)
     (initial_state zero_duration_params w coarse_clock) =
   Inr (initial_state zero_duration_params w coarse_clock)"
  by (simp add: zero_duration_params_def coarse_clock_def initial_state_def
      random_uniform_def random_random_def next_raw_def Let_def split: prod.splits)


lemma cancelled_fixed:
  assumes "wf_order order" and "map_of order ''status'' = Some (VStr ''cancelled'')"
    and "order' = order \<or> order_step order order'"
  shows "order' = order"
  using assms(3)
proof
  assume "order_step order order'"
  with assms(2) show ?thesis
    by (cases "map_of order' ''status''") (simp_all add: order_step_def lifecycle_step_def)
qed

lemma order_step_cancellation:
  assumes "wf_order order" and "order' = order \<or> order_step order order'"
  shows "cancellation_step order order'"
proof -
  from assms(1) obtain st where st: "map_of order ''status'' = Some st"
    by (auto simp: wf_order_def)
  show ?thesis
  proof (cases "st = VStr ''cancelled''")
    case True
    with st assms have "order' = order" by (simp add: cancelled_fixed)
    with st True show ?thesis by (simp add: cancellation_step_def)
  next
    case False
    from assms(2) have "map_of order' ''status'' = Some (VStr ''cancelled'') \<longrightarrow>
        reason_from st order'"
    proof
      assume "order' = order"
      with st False show ?thesis by simp
    next
      assume "order_step order order'"
      with st show ?thesis
        by (cases "map_of order' ''status''") (simp_all add: order_step_def)
    qed
    with st False show ?thesis by (simp add: cancellation_step_def)
  qed
qed

section \<open>The claims\<close>




text \<open>
  Claim C1. Over one iteration of the loop, from any state the session can be in at a
  tick boundary, the status of every order object either stays as it is or takes one
  step of the lifecycle: pending to confirmed, confirmed to processing, processing to
  shipped, or one of pending, confirmed, processing to cancelled. Nothing leaves shipped
  or cancelled, nothing moves backward or skips a state, and an order created in the
  iteration is pending.
\<close>

theorem status_forward_only:
  assumes "event_loop p kp ts (initial_state p w ck) = Inr s"
    and "loop_body p kp t s = Inr s'"
  shows "length (heap s) \<le> length (heap s') \<and>
         (\<forall>a < length (heap s). status_step (heap s ! a) (heap s' ! a)) \<and>
         (\<forall>a. length (heap s) \<le> a \<longrightarrow> a < length (heap s') \<longrightarrow>
            map_of (heap s' ! a) ''status'' = Some (VStr ''pending''))"
proof -
  have inv: "state_inv s" using assms(1) by (rule reached_inv)
  from loop_body_spec [OF inv, of p kp t]
  obtain s1 where lb: "loop_body p kp t s = Inr s1"
    and len: "length (heap s) \<le> length (heap s1)"
    and step: "\<forall>b < length (heap s).
              heap s1 ! b = heap s ! b \<or> order_step (heap s ! b) (heap s1 ! b)"
    and new: "\<forall>b. length (heap s) \<le> b \<longrightarrow> b < length (heap s1) \<longrightarrow>
              map_of (heap s1 ! b) ''status'' = Some (VStr ''pending'')"
    by (elim exE conjE) (rule that)
  from lb assms(2) have eq: "s1 = s'" by simp
  have "status_step (heap s ! a) (heap s' ! a)" if a: "a < length (heap s)" for a
  proof -
    from inv a have wf: "wf_order (heap s ! a)" by (simp add: state_inv_def)
    from step a have "heap s1 ! a = heap s ! a \<or> order_step (heap s ! a) (heap s1 ! a)"
      by blast
    then show ?thesis
    proof
      assume "heap s1 ! a = heap s ! a"
      with wf eq show ?thesis by (simp add: wf_order_status_step)
    next
      assume "order_step (heap s ! a) (heap s1 ! a)"
      with eq show ?thesis by (simp add: order_step_status_step)
    qed
  qed
  with len new eq show ?thesis by simp
qed

text \<open>C1 at a session in which an order is created at 31 s and confirmed at 51 s.\<close>

theorem status_forward_only_witness:
  "event_loop advance_params True [31]
     (initial_state advance_params advance_world advance_clock) = Inr advance_state1 \<and>
   loop_body advance_params True 51 advance_state1 = Inr advance_state2 \<and>
   map_of (heap advance_state1 ! 0) ''status'' = Some (VStr ''pending'') \<and>
   map_of (heap advance_state2 ! 0) ''status'' = Some (VStr ''confirmed'') \<and>
   status_step (heap advance_state1 ! 0) (heap advance_state2 ! 0)"
  using status_forward_only [OF advance_session1 advance_session2]
    advance_session1 advance_session2
  by (simp add: advance_state1_def advance_state2_def sale_at_def)

text \<open>
  Claim C8. Every payload handed to the console or to the Kafka producer, for creation
  events and for status updates, carries only fields of the event schema; the keys
  \<^verbatim>\<open>last_status_change\<close> and \<^verbatim>\<open>transition_time\<close> are never among them.
\<close>

theorem payloads_visible_only:
  assumes "event_loop p kp ts (initial_state p w ck) = Inr s"
  shows "(\<forall>(a, e) \<in> set (console_out s). visible_only e) \<and>
         (\<forall>m \<in> set (kafka_out s). visible_only (msg_value m))"
proof -
  have inv: "state_inv s" using assms by (rule reached_inv)
  have vis: "visible_only e" if "log_ok n a e" for n a e
    using that by (auto simp: log_ok_def visible_only_def payload_fields_def)
  from inv have "\<forall>(a, e) \<in> set (console_out s). log_ok (length (heap s)) a e"
    and "\<forall>m \<in> set (kafka_out s). log_ok (length (heap s)) (msg_obj m) (msg_value m)"
    by (simp_all add: state_inv_def)
  then show ?thesis using vis by blast
qed

text \<open>C8 at the creation event of a session that writes to both sinks.\<close>

theorem payloads_visible_only_witness:
  "event_loop advance_params True [31]
     (initial_state advance_params advance_world advance_clock) = Inr advance_state1 \<and>
   console_out advance_state1 = [(0, output_fields (sale_at ''pending'' 31 20))] \<and>
   visible_only (output_fields (sale_at ''pending'' 31 20)) \<and>
   visible_only (msg_value (sale_message (sale_at ''pending'' 31 20)))"
  using payloads_visible_only [OF advance_session1] advance_session1
  by (simp add: advance_state1_def)

text \<open>
  Claim C9. An order object whose time in its current state is strictly below its drawn
  dwell duration at every tick of a run of consecutive ticks, however many, is the same
  object with the same fields after the run, and none of the console lines or broker
  messages emitted during the run belongs to it. The run starts from any state the
  session can be in at a tick boundary.
\<close>

theorem not_due_untouched:
  assumes "event_loop p kp ts (initial_state p w ck) = Inr s"
    and "a < length (heap s)"
    and "map_of (heap s ! a) ''last_status_change'' = Some (VFloat x)"
    and "map_of (heap s ! a) ''transition_time'' = Some (VFloat y)"
    and "\<forall>t \<in> set later. t - x < y"
    and "event_loop p kp later s = Inr s'"
  shows "heap s' ! a = heap s ! a \<and>
         a \<notin> fst ` set (drop (length (console_out s)) (console_out s')) \<and>
         a \<notin> msg_obj ` set (drop (length (kafka_out s)) (kafka_out s'))"
proof -
  have inv: "state_inv s" using assms(1) by (rule reached_inv)
  from event_loop_not_due [OF inv assms(2-6)]
  obtain cs ks where "heap s' ! a = heap s ! a" "console_out s' = console_out s @ cs"
    "kafka_out s' = kafka_out s @ ks" "a \<notin> fst ` set cs" "a \<notin> msg_obj ` set ks"
    by (elim exE conjE) (rule that)
  then show ?thesis by simp
qed

text \<open>C9 at an order created at 31 s with a dwell of 20 s, over the ticks at 40 s and 45 s.\<close>

theorem not_due_untouched_witness:
  "event_loop advance_params True [31]
     (initial_state advance_params advance_world advance_clock) = Inr advance_state1 \<and>
   (0::nat) < length (heap advance_state1) \<and>
   map_of (heap advance_state1 ! 0) ''last_status_change'' = Some (VFloat 31) \<and>
   map_of (heap advance_state1 ! 0) ''transition_time'' = Some (VFloat 20) \<and>
   (40 :: real) - 31 < 20 \<and> (45 :: real) - 31 < 20 \<and>
   event_loop advance_params True [40, 45] advance_state1 = Inr advance_state1 \<and>
   heap advance_state1 ! 0 = sale_at ''pending'' 31 20 \<and>
   0 \<notin> fst ` set (drop (length (console_out advance_state1)) (console_out advance_state1))"
proof -
  have h: "(0::nat) < length (heap advance_state1)"
    "map_of (heap advance_state1 ! 0) ''last_status_change'' = Some (VFloat 31)"
    "map_of (heap advance_state1 ! 0) ''transition_time'' = Some (VFloat 20)"
    "\<forall>t \<in> set [40, 45 :: real]. t - 31 < 20"
    by (simp_all add: advance_state1_def sale_at_def)
  from not_due_untouched [OF advance_session1 h advance_session_idle]
  show ?thesis using advance_session1 advance_session_idle h
    by (simp add: advance_state1_def)
qed

text \<open>
  Claim C10. For the status \<^verbatim>\<open>cancelled\<close> the index lookup of \<^verbatim>\<open>get_next_status\<close> raises
  \<^verbatim>\<open>ValueError\<close> and the lookup in the dwell-time table raises \<^verbatim>\<open>KeyError\<close>, and
  \<^verbatim>\<open>advance_order_status\<close> called on a cancelled order raises. The loop never gets
  there: \<^verbatim>\<open>should_advance_order\<close> answers \<^verbatim>\<open>False\<close> for every shipped or cancelled order,
  every order that a tick hands to \<^verbatim>\<open>advance_order_status\<close> is pending, confirmed or
  processing, where both lookups succeed, and the tick completes without an exception,
  from any state the session can be in at a tick boundary.
\<close>

theorem lookup_failures_unreachable:
  assumes "event_loop p kp ts (initial_state p w ck) = Inr s"
  shows "get_next_status (VStr ''cancelled'') = Inl ValueError \<and>
         table_get STATUS_TRANSITION_TIMES (VStr ''cancelled'') = Inl KeyError \<and>
         (\<forall>order w'. map_of order ''status'' = Some (VStr ''cancelled'') \<longrightarrow>
            advance_order_status order t w' = Inl ValueError) \<and>
         (\<forall>order st. map_of order ''status'' = Some st \<longrightarrow> st \<in> set terminal_statuses \<longrightarrow>
            should_advance_order order t = Inr False) \<and>
         (\<forall>order \<in> set (tick_calls p kp t s). lookups_succeed order) \<and>
         (\<exists>s'. loop_body p kp t s = Inr s')"
proof -
  have inv: "state_inv s" using assms by (rule reached_inv)
  from loop_body_spec [OF inv, of p kp t]
  obtain s' where lb: "loop_body p kp t s = Inr s'" by (elim exE conjE) (rule that)
  have calls: "\<forall>order \<in> set (tick_calls p kp t s). lookups_succeed order"
    using inv by (rule tick_calls_active)
  show ?thesis
    using lb calls
    by (simp add: get_next_status_active table_get_times advance_cancelled_raises
        should_advance_order_terminal)
qed

text \<open>
  C10 at the tick that confirms the order created at 31 s, and at a cancelled copy of
  that order.
\<close>

theorem lookup_failures_unreachable_witness:
  "event_loop advance_params True [31]
     (initial_state advance_params advance_world advance_clock) = Inr advance_state1 \<and>
   tick_calls advance_params True 51 advance_state1 = [sale_at ''pending'' 31 20] \<and>
   lookups_succeed (sale_at ''pending'' 31 20) \<and>
   map_of (sale_at ''cancelled'' 51 30) ''status'' = Some (VStr ''cancelled'') \<and>
   VStr ''cancelled'' \<in> set terminal_statuses \<and>
   should_advance_order (sale_at ''cancelled'' 51 30) 51 = Inr False \<and>
   advance_order_status (sale_at ''cancelled'' 51 30) 51 advance_world = Inl ValueError \<and>
   loop_body advance_params True 51 advance_state1 = Inr advance_state2"
proof -
  have c: "map_of (sale_at ''cancelled'' 51 30) ''status'' = Some (VStr ''cancelled'')"
    "VStr ''cancelled'' \<in> set terminal_statuses"
    by (simp_all add: sale_at_def terminal_statuses_def)
  from lookup_failures_unreachable [OF advance_session1, of 51]
  show ?thesis using advance_session1 advance_session2 advance_calls1 c by simp
qed

text \<open>
  Claim C4. At every tick boundary each order has the field \<^verbatim>\<open>cancellation_reason\<close>
  exactly when its status is cancelled. Over one iteration of the loop an order that
  becomes cancelled gets a reason from the list of the state it was in just before
  (pending, confirmed or processing, each with its own list), and an order that is
  already cancelled keeps all its fields, the reason among them.
\<close>

theorem cancellation_reason_spec:
  assumes "event_loop p kp ts (initial_state p w ck) = Inr s"
    and "loop_body p kp t s = Inr s'"
  shows "(\<forall>order \<in> set (heap s). reason_iff_cancelled order) \<and>
         (\<forall>order \<in> set (heap s'). reason_iff_cancelled order) \<and>
         (\<forall>a < length (heap s). cancellation_step (heap s ! a) (heap s' ! a))"
proof -
  have inv: "state_inv s" using assms(1) by (rule reached_inv)
  from loop_body_spec [OF inv, of p kp t]
  obtain s1 where lb: "loop_body p kp t s = Inr s1" and inv1: "state_inv s1"
    and step: "\<forall>b < length (heap s).
              heap s1 ! b = heap s ! b \<or> order_step (heap s ! b) (heap s1 ! b)"
    by (elim exE conjE) (rule that)
  from lb assms(2) have eq: "s1 = s'" by simp
  have r: "\<forall>order \<in> set (heap s). reason_iff_cancelled order"
    using inv by (simp add: state_inv_def wf_order_def reason_iff_cancelled_def)
  have r': "\<forall>order \<in> set (heap s'). reason_iff_cancelled order"
    using inv1 eq by (simp add: state_inv_def wf_order_def reason_iff_cancelled_def)
  have "cancellation_step (heap s ! a) (heap s' ! a)" if a: "a < length (heap s)" for a
  proof -
    from inv a have wf: "wf_order (heap s ! a)" by (simp add: state_inv_def)
    from step a eq have "heap s' ! a = heap s ! a \<or> order_step (heap s ! a) (heap s' ! a)"
      by blast
    with wf show ?thesis by (rule order_step_cancellation)
  qed
  with r r' show ?thesis by simp
qed

text \<open>
  C4 at an order created at 100 s and cancelled from pending at 110 s with the reason
  \<^verbatim>\<open>payment_failed\<close>.
\<close>

theorem cancellation_reason_spec_witness:
  "event_loop cancel_params False [100]
     (initial_state cancel_params (const_world False 0) cancel_clock) = Inr cancel_state1 \<and>
   loop_body cancel_params False 110 cancel_state1 = Inr cancel_state2 \<and>
   heap cancel_state1 = [headphones_sale ''pending'' 100 10] \<and>
   heap cancel_state2 = [cancelled_sale 110] \<and>
   map_of (cancelled_sale 110) ''status'' = Some (VStr ''cancelled'') \<and>
   map_of (cancelled_sale 110) ''cancellation_reason'' = Some (VStr ''payment_failed'') \<and>
   reason_iff_cancelled (headphones_sale ''pending'' 100 10) \<and>
   reason_iff_cancelled (cancelled_sale 110) \<and>
   cancellation_step (headphones_sale ''pending'' 100 10) (cancelled_sale 110)"
proof -
  have "map_of (cancelled_sale 110) ''status'' = Some (VStr ''cancelled'')"
    "map_of (cancelled_sale 110) ''cancellation_reason'' = Some (VStr ''payment_failed'')"
    by (simp_all add: cancelled_sale_def headphones_sale_def)
  with cancellation_reason_spec [OF cancel_session1 cancel_session2]
  show ?thesis using cancel_session1 cancel_session2
    by (simp add: cancel_state1_def cancel_state2_def)
qed

text \<open>
  Claim C5 says that two distinct orders of one session never share an identifier, and
  the docstring of \<^verbatim>\<open>generate_order_id\<close> promises a unique one. The identifier is a
  random draw from \<^verbatim>\<open>10000000..99999999\<close> with no check against the identifiers in use:
  in the session below the generator returns the same draw twice, and the two orders
  created at 20 s and 40 s both carry \<^verbatim>\<open>ORD-10000000\<close>.
\<close>

theorem order_ids_collide:
  "event_loop collision_params False (tick_times collision_clock)
     (initial_state collision_params (const_world False 0) collision_clock) = Inr collision_state \<and>
   length (heap collision_state) = 2 \<and>
   heap collision_state ! 0 \<noteq> heap collision_state ! 1 \<and>
   map_of (heap collision_state ! 0) ''order_id'' = Some (VStr ''ORD-10000000'') \<and>
   map_of (heap collision_state ! 1) ''order_id'' = Some (VStr ''ORD-10000000'')"
  using collision_session
  by (simp add: collision_state_def cancelled_sale_def headphones_sale_def)

text \<open>
  Claim C2 says that at the end of a session the created counter is the sum of the
  shipped counter, the cancelled counter and the size of the registry. In the same
  session the second order replaces the first under their common key, the first is never
  looked at again, and the session, which ends by its deadline at 60 s, reports two
  orders created, none shipped, one cancelled and none active.
\<close>

theorem created_not_accounted:
  "\<not> isl (run_generator collision_params (const_world False 0) collision_clock) \<and>
   total_new_orders (snd (projr (run_generator collision_params (const_world False 0)
     collision_clock))) = 2 \<and>
   total_shipped (snd (projr (run_generator collision_params (const_world False 0)
     collision_clock))) = 0 \<and>
   total_cancelled (snd (projr (run_generator collision_params (const_world False 0)
     collision_clock))) = 1 \<and>
   still_active (snd (projr (run_generator collision_params (const_world False 0)
     collision_clock))) = 0"
  by (simp add: collision_run)

text \<open>
  Claim C3 says that the registry holds an order exactly when its status is not terminal.
  At the end of the same session the order created at 20 s is still pending, and the
  registry is empty: it holds neither the order nor its identifier.
\<close>

theorem pending_order_unregistered:
  "event_loop collision_params False (tick_times collision_clock)
     (initial_state collision_params (const_world False 0) collision_clock) = Inr collision_state \<and>
   map_of (heap collision_state ! 0) ''status'' = Some (VStr ''pending'') \<and>
   map_of (heap collision_state ! 0) ''order_id'' = Some (VStr ''ORD-10000000'') \<and>
   active_orders collision_state = [] \<and>
   table_contains (active_orders collision_state) (VStr ''ORD-10000000'') = Inr False"
  using collision_session
  by (simp add: collision_state_def headphones_sale_def table_contains_def)

text \<open>
  Claim C7 says that a session of duration 0 leaves every counter at zero, emits nothing,
  and computes its rates without dividing by zero. The loop does leave at its first tick
  with nothing created and nothing emitted; the success and cancellation rates are
  guarded by \<^verbatim>\<open>new_orders_count > 0\<close>, but the average rate divides by the elapsed minutes
  unguarded, and when the clock reading of the \<^verbatim>\<open>finally\<close> block equals the one taken at
  the start the division raises \<^verbatim>\<open>ZeroDivisionError\<close>, whatever the random source gives.
\<close>

theorem zero_duration_rate_raises:
  "event_loop zero_duration_params False (tick_times coarse_clock)
     (initial_state zero_duration_params w coarse_clock) =
     Inr (initial_state zero_duration_params w coarse_clock) \<and>
   new_orders_count (initial_state zero_duration_params w coarse_clock) = 0 \<and>
   console_out (initial_state zero_duration_params w coarse_clock) = [] \<and>
   run_generator zero_duration_params w coarse_clock = Inl ZeroDivisionError"
  using zero_duration_loop [of w]
  by (simp add: run_generator_def final_report_def py_div_def)
    (simp add: zero_duration_params_def coarse_clock_def initial_state_def
      random_uniform_def random_random_def next_raw_def Let_def split: prod.splits)

end
